theory Spec2Isabelle
  imports Main "HOL-Library.Sublist"
begin

section \<open>Data model of src/ui/App.tsx\<close>

text \<open>
  \<^verbatim>\<open>GitChange\<close> (git/types, built by \<^verbatim>\<open>parsePorcelainZ\<close>) and \<^verbatim>\<open>CommitItem\<close>.
  JavaScript strings are modelled as \<^typ>\<open>string\<close>; \<^verbatim>\<open>length\<close> counts list elements the
  way \<^verbatim>\<open>String.length\<close> counts code units.
\<close>

record GitChange =
  path :: string
  statusCode :: string
  status :: string
  oldPath :: "string option"

record CommitItem =
  hash :: string
  author :: string
  message :: string
  date :: string

datatype GroupTag = Unstaged | Staged

datatype NodeType = Directory | FileNode

datatype ViewMode = Flat | Tree

datatype DumpMode = DumpTree | DumpFlat

datatype InputMode = Normal | ExportPath | ExportOverview | ExportCodeDump

datatype FocusPane = Files | Commits

text \<open>
  The component state of \<^verbatim>\<open>App\<close>: one field per \<^verbatim>\<open>useState\<close> cell the browsing engine
  reads, plus the terminal height delivered by \<^verbatim>\<open>useWindowSize\<close> and the
  \<^verbatim>\<open>TERM_PROGRAM === 'WarpTerminal'\<close> test. The \<^verbatim>\<open>Set<string>\<close> cells are sets.
\<close>

record AppState =
  stagedFiles :: "GitChange list"
  unstagedFiles :: "GitChange list"
  commits :: "CommitItem list"
  commitFocusIndex :: int
  commitScrollOffset :: int
  selectedCommits :: "string set"
  focusPane :: FocusPane
  selectedIndex :: int
  listScrollTop :: int
  selectedPaths :: "string set"
  viewMode :: ViewMode
  dumpMode :: DumpMode
  collapsedDirs :: "string set"
  inputMode :: InputMode
  pathInput :: string
  cursorPosition :: int
  rows :: int
  isWarp :: bool

text \<open>The \<^verbatim>\<open>key\<close> argument of ink's \<^verbatim>\<open>useInput\<close> callback.\<close>

record Key =
  key_upArrow :: bool
  key_downArrow :: bool
  key_leftArrow :: bool
  key_rightArrow :: bool
  key_pageDown :: bool
  key_pageUp :: bool
  key_return :: bool
  key_escape :: bool
  key_ctrl :: bool
  key_tab :: bool
  key_backspace :: bool
  key_delete :: bool
  key_meta :: bool
  key_home :: bool
  key_end :: bool

text \<open>What \<^verbatim>\<open>new Date()\<close> reports; \<^verbatim>\<open>getMonth()\<close> is zero-based.\<close>

record Clock =
  fullYear :: nat
  month :: nat
  dayOfMonth :: nat
  hours :: nat
  minutes :: nat
  seconds :: nat

section \<open>JavaScript primitives used by the handlers\<close>

text \<open>\<^verbatim>\<open>xs[i]\<close>: \<^verbatim>\<open>undefined\<close> outside the array.\<close>

definition itemAt :: "'a list \<Rightarrow> int \<Rightarrow> 'a option" where
  "itemAt xs i = (if 0 \<le> i \<and> i < int (length xs) then Some (xs ! nat i) else None)"

text \<open>\<^verbatim>\<open>String.prototype.slice(start, end)\<close> and \<^verbatim>\<open>slice(start)\<close>, negative indices included.\<close>

definition sliceIndex :: "int \<Rightarrow> int \<Rightarrow> nat" where
  "sliceIndex len i = nat (if i < 0 then max (len + i) 0 else min i len)"

definition js_slice :: "string \<Rightarrow> int \<Rightarrow> int \<Rightarrow> string" where
  "js_slice s start fin =
     (let len = int (length s);
          from = sliceIndex len start;
          to = sliceIndex len fin
      in take (to - from) (drop from s))"

definition js_slice_from :: "string \<Rightarrow> int \<Rightarrow> string" where
  "js_slice_from s start = drop (sliceIndex (int (length s)) start) s"

text \<open>
  \<^verbatim>\<open>String.prototype.trim\<close>. Of the white space and line terminators of ECMAScript,
  those a \<^typ>\<open>char\<close> can hold are TAB, LF, VT, FF, CR, SP and NBSP.
\<close>

definition isWhiteSpace :: "char \<Rightarrow> bool" where
  "isWhiteSpace c =
     (c = CHR 0x09 \<or> c = CHR 0x0A \<or> c = CHR 0x0B \<or> c = CHR 0x0C \<or> c = CHR 0x0D
      \<or> c = CHR 0x20 \<or> c = CHR 0xA0)"

definition trim :: "string \<Rightarrow> string" where
  "trim s = rev (dropWhile isWhiteSpace (rev (dropWhile isWhiteSpace s)))"

text \<open>
  \<^verbatim>\<open>String(n)\<close> for a non-negative integer, and \<^verbatim>\<open>padStart(2, '0')\<close>. \<open>digitChar\<close> is
  only applied to a digit value below 10.
\<close>

definition digitChar :: "nat \<Rightarrow> char" where
  "digitChar d = ''0123456789'' ! d"

fun decimal :: "nat \<Rightarrow> string" where
  "decimal n = (if n < 10 then [digitChar n] else decimal (n div 10) @ [digitChar (n mod 10)])"

declare decimal.simps [simp del]

definition padStart2 :: "string \<Rightarrow> string" where
  "padStart2 s = replicate (2 - length s) (CHR ''0'') @ s"

section \<open>Timestamped file names\<close>

definition getTimestampedFileName :: "string \<Rightarrow> Clock \<Rightarrow> string" where
  "getTimestampedFileName pfx now =
     (let year = decimal (fullYear now);
          month' = padStart2 (decimal (month now + 1));
          day = padStart2 (decimal (dayOfMonth now));
          hours' = padStart2 (decimal (hours now));
          minutes' = padStart2 (decimal (minutes now));
          seconds' = padStart2 (decimal (seconds now))
      in pfx @ ''_'' @ year @ month' @ day @ ''_'' @ hours' @ minutes' @ seconds' @ ''.txt'')"

definition getCommitFileName :: "string \<Rightarrow> Clock \<Rightarrow> string" where
  "getCommitFileName commitHash now =
     (let year = decimal (fullYear now);
          month' = padStart2 (decimal (month now + 1));
          day = padStart2 (decimal (dayOfMonth now));
          hours' = padStart2 (decimal (hours now));
          minutes' = padStart2 (decimal (minutes now));
          seconds' = padStart2 (decimal (seconds now));
          date' = year @ month' @ day;
          time = hours' @ minutes' @ seconds'
      in ''diff_'' @ commitHash @ ''_'' @ date' @ ''_'' @ time @ ''.txt'')"

section \<open>The path-entry branch of the \<^verbatim>\<open>useInput\<close> callback\<close>

text \<open>
  The export routine an Enter keystroke starts, with the path it is given. The routines
  themselves (file system, git) are outside the model.
\<close>

datatype ExportCall =
    HandleExportCommits string
  | HandleExportSingle
  | HandleExportMultiple string
  | HandleExportOverview string
  | HandleExportCodeDump string DumpMode

text \<open>
  One keystroke while \<^verbatim>\<open>inputMode\<close> is one of the three path-entry modes. The arguments
  are the clock read by the file-name helpers, the outcome of \<^verbatim>\<open>getClipboardContent()\<close>
  (\<open>None\<close> when it throws), and ink's \<^verbatim>\<open>input\<close> and \<^verbatim>\<open>key\<close>. The branches are in the
  order of the source; the result is the next state and the export routine called, if any.
  The clipboard read is taken as completing before the next keystroke; the transient
  \<^verbatim>\<open>exportStatus\<close> message is not part of the model.
\<close>

definition pathEntryEnter :: "Clock \<Rightarrow> AppState \<Rightarrow> AppState \<times> ExportCall option" where
  "pathEntryEnter now s =
     (let call =
        (if inputMode s = ExportPath then
           (if focusPane s = Commits then
              (let finalPath = trim (pathInput s);
                   finalPath' =
                     (if finalPath = '''' then
                        (case itemAt (commits s) (commitFocusIndex s) of
                           Some currentCommit \<Rightarrow> ''./'' @ getCommitFileName (hash currentCommit) now
                         | None \<Rightarrow> ''./'' @ getTimestampedFileName ''commit'' now)
                      else finalPath)
               in Some (HandleExportCommits finalPath'))
            else
              (let finalPath =
                     (if trim (pathInput s) = '''' then ''./'' @ getTimestampedFileName ''diff'' now
                      else pathInput s)
               in if selectedPaths s = {} then Some HandleExportSingle
                  else Some (HandleExportMultiple finalPath)))
         else if inputMode s = ExportOverview then
           (let finalPath =
                  (if trim (pathInput s) = '''' then
                     ''./'' @ getTimestampedFileName ''files_overview'' now
                   else pathInput s)
            in Some (HandleExportOverview finalPath))
         else if inputMode s = ExportCodeDump then
           (let finalPath = trim (pathInput s)
            in Some (HandleExportCodeDump finalPath (dumpMode s)))
         else None)
      in (s\<lparr>inputMode := Normal, pathInput := '''', cursorPosition := 0\<rparr>, call))"

definition sanitizeClipboard :: "string \<Rightarrow> string" where
  "sanitizeClipboard clipboardContent =
     filter (\<lambda>c. c \<noteq> CHR 0x0D \<and> c \<noteq> CHR 0x0A) clipboardContent"

definition pathEntryInput ::
  "Clock \<Rightarrow> string option \<Rightarrow> string \<Rightarrow> Key \<Rightarrow> AppState \<Rightarrow> AppState \<times> ExportCall option" where
  "pathEntryInput now clipboard input key s =
     (if key_escape key then
        (s\<lparr>inputMode := Normal, pathInput := '''', cursorPosition := 0\<rparr>, None)
      else if key_tab key \<and> inputMode s = ExportCodeDump then
        (s\<lparr>dumpMode := (if dumpMode s = DumpFlat then DumpTree else DumpFlat)\<rparr>, None)
      else if key_return key then pathEntryEnter now s
      else if key_backspace key \<or> key_delete key then
        (if cursorPosition s > 0 then
           (let newPath = js_slice (pathInput s) 0 (cursorPosition s - 1)
                          @ js_slice_from (pathInput s) (cursorPosition s)
            in (s\<lparr>pathInput := newPath, cursorPosition := cursorPosition s - 1\<rparr>, None))
         else (s, None))
      else if key_ctrl key \<and> input = ''v'' then
        (case clipboard of
           Some clipboardContent \<Rightarrow>
             (let sanitized = sanitizeClipboard clipboardContent;
                  newPath = js_slice (pathInput s) 0 (cursorPosition s) @ sanitized
                            @ js_slice_from (pathInput s) (cursorPosition s)
              in (s\<lparr>pathInput := newPath,
                     cursorPosition := cursorPosition s + int (length sanitized)\<rparr>, None))
         | None \<Rightarrow> (s, None))
      else if key_ctrl key \<and> input = ''u'' then
        (s\<lparr>pathInput := '''', cursorPosition := 0\<rparr>, None)
      else if key_leftArrow key then
        (s\<lparr>cursorPosition := max 0 (cursorPosition s - 1)\<rparr>, None)
      else if key_rightArrow key then
        (s\<lparr>cursorPosition := min (int (length (pathInput s))) (cursorPosition s + 1)\<rparr>, None)
      else if key_home key then
        (s\<lparr>cursorPosition := 0\<rparr>, None)
      else if key_end key then
        (s\<lparr>cursorPosition := int (length (pathInput s))\<rparr>, None)
      else if input \<noteq> '''' \<and> \<not> key_ctrl key \<and> \<not> key_meta key then
        (let newPath = js_slice (pathInput s) 0 (cursorPosition s) @ input
                       @ js_slice_from (pathInput s) (cursorPosition s)
         in (s\<lparr>pathInput := newPath,
                cursorPosition := cursorPosition s + int (length input)\<rparr>, None))
      else (s, None))"

text \<open>
  The keys of normal mode that enter path entry: \<^verbatim>\<open>E\<close>, \<^verbatim>\<open>F\<close> and \<^verbatim>\<open>D\<close>. \<^verbatim>\<open>E\<close> in the
  files pane refuses an empty selection.
\<close>

definition enterPathEntry :: "string \<Rightarrow> AppState \<Rightarrow> AppState" where
  "enterPathEntry input s =
     (if input = ''E'' then
        (if focusPane s = Commits then
           s\<lparr>inputMode := ExportPath, pathInput := '''', cursorPosition := 0\<rparr>
         else if selectedPaths s = {} then s
         else s\<lparr>inputMode := ExportPath, pathInput := '''', cursorPosition := 0\<rparr>)
      else if input = ''F'' then
        s\<lparr>inputMode := ExportOverview, pathInput := '''', cursorPosition := 0\<rparr>
      else if input = ''D'' then
        s\<lparr>inputMode := ExportCodeDump, dumpMode := DumpTree, pathInput := '''',
           cursorPosition := 0\<rparr>
      else s)"

text \<open>
  A run of keystrokes in path entry: each event carries the clock, the clipboard outcome,
  \<^verbatim>\<open>input\<close> and \<^verbatim>\<open>key\<close>. The run ends when the mode is left.
\<close>

type_synonym PathEvent = "Clock \<times> string option \<times> string \<times> Key"

fun runPathEntry :: "PathEvent list \<Rightarrow> AppState \<Rightarrow> AppState" where
  "runPathEntry [] s = s"
| "runPathEntry ((now, clipboard, input, key) # es) s =
     (if inputMode s = Normal then s
      else runPathEntry es (fst (pathEntryInput now clipboard input key s)))"

definition cursorInRange :: "AppState \<Rightarrow> bool" where
  "cursorInRange s = (0 \<le> cursorPosition s \<and> cursorPosition s \<le> int (length (pathInput s)))"

section \<open>The file tree\<close>

text \<open>
  \<^verbatim>\<open>TreeNode\<close>: \<^verbatim>\<open>name\<close>, \<^verbatim>\<open>path\<close>, \<^verbatim>\<open>type\<close>, \<^verbatim>\<open>children?\<close>, \<^verbatim>\<open>file?\<close>, \<^verbatim>\<open>group?\<close>, \<^verbatim>\<open>depth\<close>.
  An absent optional field is \<open>None\<close>.
\<close>

datatype TreeNode = TreeNode
  (node_name: string)
  (node_path: string)
  (node_type: NodeType)
  (node_children: "TreeNode list option")
  (node_file: "GitChange option")
  (node_group: "GroupTag option")
  (node_depth: nat)

subsection \<open>\<^verbatim>\<open>flattenTree\<close>\<close>

text \<open>
  \<^verbatim>\<open>traverse\<close> pushes a node onto \<^verbatim>\<open>result\<close>, then traverses its children when the node is
  a directory that is not collapsed and has a \<^verbatim>\<open>children\<close> array, then goes on with the
  node's siblings.
\<close>

fun traverse :: "string set \<Rightarrow> TreeNode list \<Rightarrow> TreeNode list" where
  "traverse collapsed [] = []"
| "traverse collapsed (TreeNode name pth ty children file grp depth # nodes) =
     TreeNode name pth ty children file grp depth
     # (if ty = Directory \<and> pth \<notin> collapsed
        then (case children of Some cs \<Rightarrow> traverse collapsed cs | None \<Rightarrow> [])
        else [])
     @ traverse collapsed nodes"

definition flattenTree :: "TreeNode list \<Rightarrow> string set \<Rightarrow> TreeNode list" where
  "flattenTree nodes collapsed = traverse collapsed nodes"

subsection \<open>\<^verbatim>\<open>buildFileTree\<close>\<close>

text \<open>\<^verbatim>\<open>s.split(c)\<close> for a one-character separator, and \<^verbatim>\<open>s.includes(c)\<close>.\<close>

primrec js_split :: "char \<Rightarrow> string \<Rightarrow> string list" where
  "js_split c [] = [[]]"
| "js_split c (x # xs) =
     (if x = c then [] # js_split c xs
      else (case js_split c xs of p # ps \<Rightarrow> (x # p) # ps | [] \<Rightarrow> [[x]]))"

definition includesChar :: "string \<Rightarrow> char \<Rightarrow> bool" where
  "includesChar s c = (c \<in> set s)"

text \<open>
  \<^verbatim>\<open>buildFileTree\<close> keeps its nodes in \<^verbatim>\<open>root\<close>, a \<^verbatim>\<open>Map\<close> from path to node object, and
  pushes a new node onto the \<^verbatim>\<open>children\<close> array of its parent's object; the objects are
  shared between the map and the arrays. The model keeps the objects in a store: the
  entries of \<^verbatim>\<open>root\<close> in insertion order, each object with its \<^verbatim>\<open>children\<close> array holding
  references, a reference being the path under which \<^verbatim>\<open>root\<close> holds the object.
\<close>

record NodeObject =
  obj_name :: string
  obj_path :: string
  obj_type :: NodeType
  obj_children :: "string list option"
  obj_file :: "GitChange option"
  obj_group :: "GroupTag option"
  obj_depth :: nat

type_synonym NodeStore = "(string \<times> NodeObject) list"

definition has :: "NodeStore \<Rightarrow> string \<Rightarrow> bool" where
  "has root k = (k \<in> set (map fst root))"

text \<open>\<^verbatim>\<open>Map.set\<close>: a present key keeps its place, a new key goes last.\<close>

fun setEntry :: "string \<Rightarrow> NodeObject \<Rightarrow> NodeStore \<Rightarrow> NodeStore" where
  "setEntry k v [] = [(k, v)]"
| "setEntry k v ((k', v') # root) =
     (if k' = k then (k, v) # root else (k', v') # setEntry k v root)"

text \<open>
  \<^verbatim>\<open>parent.children.push(node)\<close>, guarded as in the source: the parent path is not empty,
  \<^verbatim>\<open>root\<close> has it, and the parent object has a \<^verbatim>\<open>children\<close> array.
\<close>

definition linkToParent :: "string \<Rightarrow> string \<Rightarrow> NodeStore \<Rightarrow> NodeStore" where
  "linkToParent parentPath currentPath root =
     (if parentPath \<noteq> '''' \<and> has root parentPath then
        (case map_of root parentPath of
           Some parent \<Rightarrow>
             (case obj_children parent of
                Some cs \<Rightarrow> setEntry parentPath (parent\<lparr>obj_children := Some (cs @ [currentPath])\<rparr>) root
              | None \<Rightarrow> root)
         | None \<Rightarrow> root)
      else root)"

text \<open>
  The loop over \<^verbatim>\<open>parts\<close>: \<open>n\<close> is \<^verbatim>\<open>parts.length\<close>, \<open>i\<close> the index of the first part
  still to visit, \<open>currentPath\<close> the running path.
\<close>

fun addParts ::
  "GitChange \<Rightarrow> GroupTag \<Rightarrow> nat \<Rightarrow> nat \<Rightarrow> string list \<Rightarrow> string \<Rightarrow> NodeStore \<Rightarrow> NodeStore" where
  "addParts file grp n i [] currentPath root = root"
| "addParts file grp n i (part # parts) currentPath root =
     (if part = '''' then addParts file grp n (i + 1) parts currentPath root
      else
        (let parentPath = currentPath;
             currentPath' = (if currentPath \<noteq> '''' then currentPath @ ''/'' @ part else part);
             isFile = (i = n - 1);
             depth = i
         in addParts file grp n (i + 1) parts currentPath'
              (if \<not> has root currentPath' then
                 (let node = \<lparr>obj_name = part, obj_path = currentPath',
                        obj_type = (if isFile then FileNode else Directory),
                        obj_children = (if \<not> isFile then Some [] else None),
                        obj_file = (if isFile then Some file else None),
                        obj_group = (if isFile then Some grp else None),
                        obj_depth = depth\<rparr>
                  in linkToParent parentPath currentPath' (setEntry currentPath' node root))
               else root)))"

definition pathParts :: "string \<Rightarrow> string list" where
  "pathParts p = filter (\<lambda>part. length part > 0) (js_split (CHR ''/'') p)"

definition addFile :: "GroupTag \<Rightarrow> GitChange \<Rightarrow> NodeStore \<Rightarrow> NodeStore" where
  "addFile grp file root =
     (let parts = pathParts (path file)
      in addParts file grp (length parts) 0 parts '''' root)"

definition buildStore :: "GitChange list \<Rightarrow> GroupTag \<Rightarrow> NodeStore" where
  "buildStore files grp = fold (addFile grp) files []"

text \<open>
  Reading the objects of the store as values. A node is pushed onto its parent when the
  node is created, so a reference always points to a later entry of \<^verbatim>\<open>root\<close>
  (\<open>storeInv_references_later\<close> below); the entries are therefore read from the last to
  the first, each one finding its children already read.
\<close>

fun readStore :: "NodeStore \<Rightarrow> (string \<times> TreeNode) list" where
  "readStore [] = []"
| "readStore ((k, obj) # root) =
     (let later = readStore root
      in (k, TreeNode (obj_name obj) (obj_path obj) (obj_type obj)
               (map_option (List.map_filter (map_of later)) (obj_children obj))
               (obj_file obj) (obj_group obj) (obj_depth obj)) # later)"

text \<open>\<^verbatim>\<open>Array.from(root.values()).filter(node => !node.path.includes('/'))\<close>\<close>

definition buildFileTree :: "GitChange list \<Rightarrow> GroupTag \<Rightarrow> TreeNode list" where
  "buildFileTree files grp =
     filter (\<lambda>node. \<not> includesChar (node_path node) (CHR ''/''))
       (map snd (readStore (buildStore files grp)))"

section \<open>The unified list\<close>

text \<open>
  \<^verbatim>\<open>ListItem\<close>. In tree mode a file row takes \<^verbatim>\<open>node.file!\<close> and \<^verbatim>\<open>node.group!\<close>, which
  are not checked when the program runs, so the two fields are optional here.
\<close>

datatype ListItem =
    GroupItem string nat
  | FileItem "GitChange option" "GroupTag option" "TreeNode option"
  | DirectoryItem TreeNode

definition treeItem :: "TreeNode \<Rightarrow> ListItem" where
  "treeItem node =
     (if node_type node = FileNode then FileItem (node_file node) (node_group node) (Some node)
      else DirectoryItem node)"

text \<open>The \<^verbatim>\<open>allItems\<close> memo; \<^verbatim>\<open>forEach\<close> with \<^verbatim>\<open>items.push\<close> is a fold that appends.\<close>

definition allItems :: "AppState \<Rightarrow> ListItem list" where
  "allItems s =
     (let items = [] in
      if viewMode s = Flat then
        (let items =
           (if length (unstagedFiles s) > 0 then
              fold (\<lambda>file items. items @ [FileItem (Some file) (Some Unstaged) None])
                (unstagedFiles s) (items @ [GroupItem ''Changes'' (length (unstagedFiles s))])
            else items)
         in if length (stagedFiles s) > 0 then
              fold (\<lambda>file items. items @ [FileItem (Some file) (Some Staged) None])
                (stagedFiles s) (items @ [GroupItem ''Staged Changes'' (length (stagedFiles s))])
            else items)
      else
        (let items =
           (if length (unstagedFiles s) > 0 then
              (let items = items @ [GroupItem ''Changes'' (length (unstagedFiles s))];
                   tree = buildFileTree (unstagedFiles s) Unstaged;
                   flatTree = flattenTree tree (collapsedDirs s)
               in items @ map treeItem flatTree)
            else items)
         in if length (stagedFiles s) > 0 then
              (let items = items @ [GroupItem ''Staged Changes'' (length (stagedFiles s))];
                   tree = buildFileTree (stagedFiles s) Staged;
                   flatTree = flattenTree tree (collapsedDirs s)
               in items @ map treeItem flatTree)
            else items))"

section \<open>Pane geometry and the files-pane scroll window\<close>

definition adjustedRows :: "AppState \<Rightarrow> int" where
  "adjustedRows s =
     (let rows' = (if rows s = 0 then 24 else rows s)
      in if isWarp s then max 10 (rows' - 1) else rows')"

definition mainAreaHeight :: "AppState \<Rightarrow> int" where
  "mainAreaHeight s = max 3 (adjustedRows s - 8)"

definition filesPaneHeight :: "AppState \<Rightarrow> int" where
  "filesPaneHeight s = (mainAreaHeight s * 2) div 4"

text \<open>The effect that runs when \<^verbatim>\<open>allItems.length\<close>, \<^verbatim>\<open>selectedIndex\<close> or \<^verbatim>\<open>mainAreaHeight\<close> changes.\<close>

definition reclampEffect :: "AppState \<Rightarrow> AppState" where
  "reclampEffect s =
     (if selectedIndex s \<ge> int (length (allItems s)) then
        (let lastIndex = max 0 (int (length (allItems s)) - 1)
         in s\<lparr>selectedIndex := lastIndex,
              listScrollTop := max 0 (lastIndex - mainAreaHeight s + 1)\<rparr>)
      else if length (allItems s) = 0 then
        s\<lparr>selectedIndex := 0, listScrollTop := 0\<rparr>
      else s)"

text \<open>Up (\<^verbatim>\<open>k\<close>) and down (\<^verbatim>\<open>j\<close>) in normal mode, for both panes.\<close>

definition upKey :: "AppState \<Rightarrow> AppState" where
  "upKey s =
     (if focusPane s = Files then
        (let nextIndex = max (selectedIndex s - 1) 0
         in s\<lparr>selectedIndex := nextIndex,
              listScrollTop := (if nextIndex < listScrollTop s then nextIndex else listScrollTop s)\<rparr>)
      else
        (let nextIndex = max (commitFocusIndex s - 1) 0
         in s\<lparr>commitFocusIndex := nextIndex,
              commitScrollOffset :=
                (if nextIndex < commitScrollOffset s then nextIndex else commitScrollOffset s)\<rparr>))"

definition downKey :: "AppState \<Rightarrow> AppState" where
  "downKey s =
     (if focusPane s = Files then
        (let nextIndex = min (selectedIndex s + 1) (int (length (allItems s)) - 1);
             filesPaneHeight = (mainAreaHeight s * 2) div 4
         in s\<lparr>selectedIndex := nextIndex,
              listScrollTop :=
                (if nextIndex \<ge> listScrollTop s + filesPaneHeight
                 then nextIndex - filesPaneHeight + 1 else listScrollTop s)\<rparr>)
      else
        (let nextIndex = min (commitFocusIndex s + 1) (int (length (commits s)) - 1);
             commitPaneHeight = mainAreaHeight s div 4
         in s\<lparr>commitFocusIndex := nextIndex,
              commitScrollOffset :=
                (if nextIndex \<ge> commitScrollOffset s + commitPaneHeight
                 then nextIndex - commitPaneHeight + 1 else commitScrollOffset s)\<rparr>))"

text \<open>\<^verbatim>\<open>/\<close> switches the view mode and resets the focus and the scroll offset.\<close>

definition viewToggleKey :: "AppState \<Rightarrow> AppState" where
  "viewToggleKey s =
     s\<lparr>viewMode := (if viewMode s = Flat then Tree else Flat), selectedIndex := 0,
       listScrollTop := 0\<rparr>"

text \<open>
  The slice the files pane renders,
  \<^verbatim>\<open>allItems.slice(listScrollTop, listScrollTop + filesPaneHeight)\<close>, shows the focused row
  when this holds.
\<close>

definition focusVisible :: "AppState \<Rightarrow> bool" where
  "focusVisible s =
     (0 \<le> listScrollTop s \<and> listScrollTop s \<le> selectedIndex s
      \<and> selectedIndex s \<le> listScrollTop s + filesPaneHeight s - 1)"

section \<open>Selection and collapsing\<close>

text \<open>
  Space in normal mode. On a file row whose record is absent the source fails on reading
  \<^verbatim>\<open>currentItem.file.path\<close> before it sets any state; the model leaves the state as it is.
\<close>

definition spaceKey :: "AppState \<Rightarrow> AppState" where
  "spaceKey s =
     (if focusPane s = Commits then
        (case itemAt (commits s) (commitFocusIndex s) of
           Some commit \<Rightarrow>
             s\<lparr>selectedCommits :=
                 (if hash commit \<in> selectedCommits s then selectedCommits s - {hash commit}
                  else insert (hash commit) (selectedCommits s))\<rparr>
         | None \<Rightarrow> s)
      else
        (case itemAt (allItems s) (selectedIndex s) of
           Some (GroupItem label count) \<Rightarrow>
             (let newSet = selectedPaths s;
                  groupLabel = label;
                  isStaged = (groupLabel = ''Staged Changes'');
                  groupFiles = (if isStaged then stagedFiles s else unstagedFiles s);
                  allSelected = list_all (\<lambda>f. path f \<in> newSet) groupFiles
              in s\<lparr>selectedPaths :=
                     (if allSelected then fold (\<lambda>f newSet. newSet - {path f}) groupFiles newSet
                      else fold (\<lambda>f newSet. insert (path f) newSet) groupFiles newSet)\<rparr>)
         | Some (FileItem (Some file) grp node) \<Rightarrow>
             s\<lparr>selectedPaths :=
                 (if path file \<in> selectedPaths s then selectedPaths s - {path file}
                  else insert (path file) (selectedPaths s))\<rparr>
         | _ \<Rightarrow> s))"

text \<open>Enter in normal mode: in tree view, on a directory row, it flips the collapse state.\<close>

definition enterKey :: "AppState \<Rightarrow> AppState" where
  "enterKey s =
     (if viewMode s = Tree then
        (case itemAt (allItems s) (selectedIndex s) of
           Some (DirectoryItem node) \<Rightarrow>
             (let dirPath = node_path node
              in s\<lparr>collapsedDirs :=
                     (if dirPath \<in> collapsedDirs s then collapsedDirs s - {dirPath}
                      else insert dirPath (collapsedDirs s))\<rparr>)
         | _ \<Rightarrow> s)
      else s)"

section \<open>Notions used in the statements\<close>

text \<open>
  The scroll rule in the words of the specification:
  \<^verbatim>\<open>clamp(focusIndex, scrollTop, viewportHeight) -> scrollTop'\<close>.
\<close>

definition specClamp :: "int \<Rightarrow> int \<Rightarrow> int \<Rightarrow> int" where
  "specClamp focusIndex scrollTop viewportHeight =
     (if focusIndex < scrollTop then focusIndex
      else if focusIndex \<ge> scrollTop + viewportHeight then focusIndex - viewportHeight + 1
      else scrollTop)"

text \<open>
  The events other than keystrokes that the files pane sees: a change of the cells the
  \<^verbatim>\<open>allItems\<close> memo is computed from, and the \<^verbatim>\<open>resize\<close> listener of \<^verbatim>\<open>useWindowSize\<close>
  storing \<^verbatim>\<open>process.stdout.rows || 24\<close>.
\<close>

definition rebuildRows ::
  "GitChange list \<Rightarrow> GitChange list \<Rightarrow> ViewMode \<Rightarrow> string set \<Rightarrow> AppState \<Rightarrow> AppState" where
  "rebuildRows unstaged staged mode collapsed s =
     s\<lparr>unstagedFiles := unstaged, stagedFiles := staged, viewMode := mode,
       collapsedDirs := collapsed\<rparr>"

definition onResize :: "int \<Rightarrow> AppState \<Rightarrow> AppState" where
  "onResize stdoutRows s = s\<lparr>rows := (if stdoutRows = 0 then 24 else stdoutRows)\<rparr>"

text \<open>
  The nodes of a forest in depth-first pre-order, each with the paths of the directories
  above it, outermost first. A directory's nodes below it are those of its \<^verbatim>\<open>children\<close>
  array; the collapse set plays no part here.
\<close>

fun walk :: "string list \<Rightarrow> TreeNode list \<Rightarrow> (string list \<times> TreeNode) list" where
  "walk ancestors [] = []"
| "walk ancestors (TreeNode name pth ty children file grp depth # nodes) =
     (ancestors, TreeNode name pth ty children file grp depth)
     # (if ty = Directory
        then (case children of Some cs \<Rightarrow> walk (ancestors @ [pth]) cs | None \<Rightarrow> [])
        else [])
     @ walk ancestors nodes"

text \<open>A node is visible when no directory above it is collapsed.\<close>

definition uncollapsedChain :: "string set \<Rightarrow> string list \<times> TreeNode \<Rightarrow> bool" where
  "uncollapsedChain collapsed entry = list_all (\<lambda>p. p \<notin> collapsed) (fst entry)"

definition below :: "string \<Rightarrow> string list \<times> TreeNode \<Rightarrow> bool" where
  "below p entry = (p \<in> set (fst entry))"

text \<open>The number of nodes below a node, at any depth.\<close>

definition descendantCount :: "TreeNode \<Rightarrow> nat" where
  "descendantCount node =
     (if node_type node = Directory
      then (case node_children node of Some cs \<Rightarrow> length (walk [] cs) | None \<Rightarrow> 0)
      else 0)"

text \<open>
  One pass of the loop body for a non-empty part: the new running path, the node object
  created for it, and the store after the pass.
\<close>

definition childPath :: "string \<Rightarrow> string \<Rightarrow> string" where
  "childPath currentPath part =
     (if currentPath \<noteq> '''' then currentPath @ ''/'' @ part else part)"

definition newNode :: "GitChange \<Rightarrow> GroupTag \<Rightarrow> nat \<Rightarrow> nat \<Rightarrow> string \<Rightarrow> string \<Rightarrow> NodeObject" where
  "newNode file grp n i part currentPath =
     \<lparr>obj_name = part, obj_path = currentPath,
      obj_type = (if i = n - 1 then FileNode else Directory),
      obj_children = (if \<not> (i = n - 1) then Some [] else None),
      obj_file = (if i = n - 1 then Some file else None),
      obj_group = (if i = n - 1 then Some grp else None),
      obj_depth = i\<rparr>"

definition visit ::
  "GitChange \<Rightarrow> GroupTag \<Rightarrow> nat \<Rightarrow> nat \<Rightarrow> string \<Rightarrow> string \<Rightarrow> NodeStore \<Rightarrow> NodeStore" where
  "visit file grp n i part currentPath root =
     (if \<not> has root (childPath currentPath part) then
        linkToParent currentPath (childPath currentPath part)
          (setEntry (childPath currentPath part)
             (newNode file grp n i part (childPath currentPath part)) root)
      else root)"

text \<open>
  The running paths the loop goes through for a list of parts, and for a record; the
  paths of a list of records in the order in which they are first seen.
\<close>

fun runningPaths :: "string \<Rightarrow> string list \<Rightarrow> string list" where
  "runningPaths currentPath [] = []"
| "runningPaths currentPath (part # parts) =
     (if part = '''' then runningPaths currentPath parts
      else childPath currentPath part # runningPaths (childPath currentPath part) parts)"

definition recordPaths :: "GitChange \<Rightarrow> string list" where
  "recordPaths file = runningPaths '''' (pathParts (path file))"

definition seeFirst :: "string \<Rightarrow> string list \<Rightarrow> string list" where
  "seeFirst k seen = (if k \<in> set seen then seen else seen @ [k])"

definition firstSeen :: "string list \<Rightarrow> string list" where
  "firstSeen ks = fold seeFirst ks []"

definition createdPaths :: "GitChange list \<Rightarrow> string list" where
  "createdPaths files = firstSeen (concat (map recordPaths files))"

text \<open>The path one level up: everything before the last \<^verbatim>\<open>/\<close>, empty when there is none.\<close>

definition parentOf :: "string \<Rightarrow> string" where
  "parentOf k = rev (tl (dropWhile (\<lambda>c. c \<noteq> CHR ''/'') (rev k)))"

text \<open>
  What holds of the store between two passes of the loop: the keys are distinct and not
  empty; an object's path is its key, it has a \<^verbatim>\<open>children\<close> array exactly when it is a
  directory, and the array lists, in the order of \<^verbatim>\<open>root\<close>, the keys whose parent path is
  the object's key; and the parent path of a key is empty or an earlier key.
\<close>

definition storeInv :: "NodeStore \<Rightarrow> bool" where
  "storeInv root \<longleftrightarrow>
     distinct (map fst root) \<and> '''' \<notin> set (map fst root)
     \<and> (\<forall>k obj. map_of root k = Some obj \<longrightarrow>
           obj_path obj = k
           \<and> (obj_type obj = Directory \<longleftrightarrow> obj_children obj \<noteq> None)
           \<and> (\<forall>cs. obj_children obj = Some cs \<longrightarrow>
                  cs = filter (\<lambda>k'. parentOf k' = k) (map fst root)))
     \<and> (\<forall>pre k post. map fst root = pre @ k # post \<longrightarrow>
           parentOf k = '''' \<or> parentOf k \<in> set pre)"

text \<open>A decimal digit, for the pattern \<^verbatim>\<open>diff_YYYYMMDD_HHMMSS.txt\<close>.\<close>

definition isDigit :: "char \<Rightarrow> bool" where
  "isDigit c = (c \<in> set ''0123456789'')"

section \<open>Sample inputs\<close>

text \<open>The initial values of the \<^verbatim>\<open>useState\<close> cells, on a 24-row terminal.\<close>

definition initialState :: AppState where
  "initialState =
     \<lparr>stagedFiles = [], unstagedFiles = [], commits = [], commitFocusIndex = 0,
      commitScrollOffset = 0, selectedCommits = {}, focusPane = Files, selectedIndex = 0,
      listScrollTop = 0, selectedPaths = {}, viewMode = Flat, dumpMode = DumpTree,
      collapsedDirs = {}, inputMode = Normal, pathInput = ''./diff.txt'', cursorPosition = 0,
      rows = 24, isWarp = False\<rparr>"

text \<open>A \<^verbatim>\<open>key\<close> object with no flag set, and a fixed reading of the clock.\<close>

definition noKey :: Key where
  "noKey =
     \<lparr>key_upArrow = False, key_downArrow = False, key_leftArrow = False,
      key_rightArrow = False, key_pageDown = False, key_pageUp = False, key_return = False,
      key_escape = False, key_ctrl = False, key_tab = False, key_backspace = False,
      key_delete = False, key_meta = False, key_home = False, key_end = False\<rparr>"

definition sampleClock :: Clock where
  "sampleClock =
     \<lparr>fullYear = 2025, month = 11, dayOfMonth = 28, hours = 21, minutes = 29, seconds = 45\<rparr>"

text \<open>The two records of the specification's scenarios, as the unstaged list.\<close>

definition fileA :: GitChange where
  "fileA = \<lparr>path = ''src/a.ts'', statusCode = '' M'', status = ''M'', oldPath = None\<rparr>"

definition fileB :: GitChange where
  "fileB = \<lparr>path = ''src/b.ts'', statusCode = ''??'', status = ''??'', oldPath = None\<rparr>"

definition scenarioState :: AppState where
  "scenarioState = initialState\<lparr>unstagedFiles := [fileA, fileB]\<rparr>"

text \<open>Twelve unstaged files, \<^verbatim>\<open>f0\<close> to \<^verbatim>\<open>f11\<close>.\<close>

definition twelveFiles :: "GitChange list" where
  "twelveFiles = map (\<lambda>n. fileA\<lparr>path := ''f'' @ decimal n\<rparr>) [0 ..< 12]"

text \<open>One unstaged file two directories deep, and the tree built from it.\<close>

definition fileC :: GitChange where
  "fileC = \<lparr>path = ''a/b/c.ts'', statusCode = '' M'', status = ''M'', oldPath = None\<rparr>"

definition nodeC :: TreeNode where
  "nodeC = TreeNode ''c.ts'' ''a/b/c.ts'' FileNode None (Some fileC) (Some Unstaged) 2"

definition nodeB :: TreeNode where
  "nodeB = TreeNode ''b'' ''a/b'' Directory (Some [nodeC]) None None 1"

definition nodeA :: TreeNode where
  "nodeA = TreeNode ''a'' ''a'' Directory (Some [nodeB]) None None 0"

text \<open>
  A second record for the path \<^verbatim>\<open>src\<close>, which the first of the scenario's records has
  already made a directory, and the scenario's tree.
\<close>

definition fileSrc :: GitChange where
  "fileSrc = \<lparr>path = ''src'', statusCode = ''??'', status = ''??'', oldPath = None\<rparr>"

definition nodeFA :: TreeNode where
  "nodeFA = TreeNode ''a.ts'' ''src/a.ts'' FileNode None (Some fileA) (Some Unstaged) 1"

definition nodeFB :: TreeNode where
  "nodeFB = TreeNode ''b.ts'' ''src/b.ts'' FileNode None (Some fileB) (Some Unstaged) 1"

definition nodeSrc :: TreeNode where
  "nodeSrc = TreeNode ''src'' ''src'' Directory (Some [nodeFA, nodeFB]) None None 0"

text \<open>The tree of the scenario's records taken in the other order.\<close>

definition nodeSrcBA :: TreeNode where
  "nodeSrcBA = TreeNode ''src'' ''src'' Directory (Some [nodeFB, nodeFA]) None None 0"

text \<open>Typing \<^verbatim>\<open>ab\<close>, left, pasting \<^verbatim>\<open>x/y\<close>, backspace, end.\<close>

definition sampleKeys :: "PathEvent list" where
  "sampleKeys =
     [(sampleClock, None, ''ab'', noKey),
      (sampleClock, None, '''', noKey\<lparr>key_leftArrow := True\<rparr>),
      (sampleClock, Some ''x/y'', ''v'', noKey\<lparr>key_ctrl := True\<rparr>),
      (sampleClock, None, '''', noKey\<lparr>key_backspace := True\<rparr>),
      (sampleClock, None, '''', noKey\<lparr>key_end := True\<rparr>)]"

section \<open>Path entry: the cursor stays inside the buffer\<close>

lemma js_slice_prefix:
  "0 \<le> c \<Longrightarrow> c \<le> int (length p) \<Longrightarrow> js_slice p 0 c = take (nat c) p"
  by (simp add: js_slice_def sliceIndex_def Let_def min_def)

lemma js_slice_from_suffix:
  "0 \<le> c \<Longrightarrow> c \<le> int (length p) \<Longrightarrow> js_slice_from p c = drop (nat c) p"
  by (simp add: js_slice_from_def sliceIndex_def min_def)

lemma pathEntryInput_cursorInRange:
  assumes "cursorInRange s"
  shows "cursorInRange (fst (pathEntryInput now clipboard input key s))"
proof -
  from assms have r: "0 \<le> cursorPosition s" "cursorPosition s \<le> int (length (pathInput s))"
    by (simp_all add: cursorInRange_def)
  show ?thesis
    unfolding pathEntryInput_def pathEntryEnter_def cursorInRange_def
    using r by (simp add: Let_def js_slice_prefix js_slice_from_suffix split: option.splits)
qed

lemma runPathEntry_cursorInRange:
  "cursorInRange s \<Longrightarrow> cursorInRange (runPathEntry es s)"
proof (induction es arbitrary: s)
  case Nil
  then show ?case by simp
next
  case (Cons e es)
  obtain now clipboard input key where e: "e = (now, clipboard, input, key)"
    by (cases e) auto
  from Cons.prems have "cursorInRange (fst (pathEntryInput now clipboard input key s))"
    by (rule pathEntryInput_cursorInRange)
  with Cons show ?case by (simp add: e)
qed

lemma enterPathEntry_resets:
  "inputMode s = Normal \<Longrightarrow> inputMode (enterPathEntry input s) \<noteq> Normal \<Longrightarrow>
     pathInput (enterPathEntry input s) = '''' \<and> cursorPosition (enterPathEntry input s) = 0"
  by (auto simp: enterPathEntry_def split: if_splits)

text \<open>
  C7. Path entry starts with an empty buffer and the cursor at 0. After any run of
  path-entry keystrokes (characters, backspace, arrows, home, end, paste, clear, and the
  keys that leave the mode) the cursor \<open>c\<close> of the state \<open>t\<close> reached satisfies
  \<open>0 \<le> c \<le> length buffer\<close>. From \<open>t\<close>: left gives \<open>max 0 (c - 1)\<close>, right gives
  \<open>min (length buffer) (c + 1)\<close>, home gives 0, end gives the buffer length; backspace
  changes nothing at \<open>c = 0\<close> and otherwise deletes the one character before the cursor
  and moves the cursor back by one; typed text and a successful paste (line breaks
  removed) are inserted at the cursor, which advances by the length of what was
  inserted; a failed paste changes nothing; clear empties the buffer and puts the cursor at 0.
\<close>

theorem pathEntry_cursor_safety:
  assumes "pathInput s = ''''" and "cursorPosition s = 0"
    and "t = runPathEntry es s" and "c = cursorPosition t" and "p = pathInput t"
  shows "0 \<le> c \<and> c \<le> int (length p)
    \<and> fst (pathEntryInput now clipboard input (noKey\<lparr>key_leftArrow := True\<rparr>) t)
        = t\<lparr>cursorPosition := max 0 (c - 1)\<rparr>
    \<and> fst (pathEntryInput now clipboard input (noKey\<lparr>key_rightArrow := True\<rparr>) t)
        = t\<lparr>cursorPosition := min (int (length p)) (c + 1)\<rparr>
    \<and> fst (pathEntryInput now clipboard input (noKey\<lparr>key_home := True\<rparr>) t)
        = t\<lparr>cursorPosition := 0\<rparr>
    \<and> fst (pathEntryInput now clipboard input (noKey\<lparr>key_end := True\<rparr>) t)
        = t\<lparr>cursorPosition := int (length p)\<rparr>
    \<and> fst (pathEntryInput now clipboard input (noKey\<lparr>key_backspace := True\<rparr>) t)
        = (if c > 0
           then t\<lparr>pathInput := take (nat c - 1) p @ drop (nat c) p, cursorPosition := c - 1\<rparr>
           else t)
    \<and> (input \<noteq> '''' \<longrightarrow>
         fst (pathEntryInput now clipboard input noKey t)
         = t\<lparr>pathInput := take (nat c) p @ input @ drop (nat c) p,
               cursorPosition := c + int (length input)\<rparr>)
    \<and> fst (pathEntryInput now (Some text) ''v'' (noKey\<lparr>key_ctrl := True\<rparr>) t)
        = t\<lparr>pathInput := take (nat c) p @ sanitizeClipboard text @ drop (nat c) p,
              cursorPosition := c + int (length (sanitizeClipboard text))\<rparr>
    \<and> fst (pathEntryInput now None ''v'' (noKey\<lparr>key_ctrl := True\<rparr>) t) = t
    \<and> fst (pathEntryInput now clipboard ''u'' (noKey\<lparr>key_ctrl := True\<rparr>) t)
        = t\<lparr>pathInput := '''', cursorPosition := 0\<rparr>"
proof -
  have "cursorInRange s"
    using assms(1,2) by (simp add: cursorInRange_def)
  then have "cursorInRange t"
    unfolding assms(3) by (rule runPathEntry_cursorInRange)
  then have r: "0 \<le> c" "c \<le> int (length p)"
    by (simp_all add: cursorInRange_def assms(4,5))
  have pre: "js_slice p 0 c = take (nat c) p" and suf: "js_slice_from p c = drop (nat c) p"
    using r by (simp_all add: js_slice_prefix js_slice_from_suffix)
  have pre1: "0 < c \<Longrightarrow> js_slice p 0 (c - 1) = take (nat c - 1) p"
    using r by (simp add: js_slice_prefix nat_diff_distrib)
  show ?thesis
    using r pre suf pre1
    by (simp add: pathEntryInput_def noKey_def Let_def assms(4,5) [symmetric])
qed

theorem pathEntry_cursor_safety_witness:
  "cursorInRange (runPathEntry sampleKeys (enterPathEntry ''F'' initialState))
   \<and> pathInput (runPathEntry sampleKeys (enterPathEntry ''F'' initialState)) = ''ax/b''"
proof -
  have e: "pathInput (enterPathEntry ''F'' initialState) = ''''"
    "cursorPosition (enterPathEntry ''F'' initialState) = 0"
    by (simp_all add: enterPathEntry_def initialState_def)
  have run: "runPathEntry sampleKeys (enterPathEntry ''F'' initialState)
      = (enterPathEntry ''F'' initialState)\<lparr>pathInput := ''ax/b'', cursorPosition := 4\<rparr>"
    by (simp add: sampleKeys_def enterPathEntry_def initialState_def pathEntryInput_def
        noKey_def Let_def js_slice_def js_slice_from_def sliceIndex_def sanitizeClipboard_def)
  have lo: "0 \<le> cursorPosition (runPathEntry sampleKeys (enterPathEntry ''F'' initialState))"
    by (rule pathEntry_cursor_safety [OF e refl refl refl, THEN conjunct1])
  have hi: "cursorPosition (runPathEntry sampleKeys (enterPathEntry ''F'' initialState))
      \<le> int (length (pathInput (runPathEntry sampleKeys (enterPathEntry ''F'' initialState))))"
    by (rule pathEntry_cursor_safety [OF e refl refl refl, THEN conjunct2, THEN conjunct1])
  have inside: "cursorInRange (runPathEntry sampleKeys (enterPathEntry ''F'' initialState))"
    unfolding cursorInRange_def using lo hi by (rule conjI)
  have buffer: "pathInput (runPathEntry sampleKeys (enterPathEntry ''F'' initialState)) = ''ax/b''"
    unfolding run by simp
  show ?thesis
    using inside buffer by (rule conjI)
qed

section \<open>Path entry: confirming\<close>

lemma digitChar_digit: "d < 10 \<Longrightarrow> isDigit (digitChar d)"
proof -
  assume "d < 10"
  then have "d \<in> {0, 1, 2, 3, 4, 5, 6, 7, 8, 9}"
    by auto
  then show ?thesis
    by (auto simp: digitChar_def isDigit_def)
qed

lemma decimal_digits: "list_all isDigit (decimal n)"
proof (induction n rule: decimal.induct)
  case (1 n)
  show ?case
  proof (cases "n < 10")
    case True
    then show ?thesis
      by (subst decimal.simps) (simp add: digitChar_digit)
  next
    case False
    then show ?thesis
      using 1 by (subst decimal.simps) (simp add: digitChar_digit)
  qed
qed

lemma decimal_length_1: "n < 10 \<Longrightarrow> length (decimal n) = 1"
  by (subst decimal.simps) simp

lemma decimal_length_2: "10 \<le> n \<Longrightarrow> n < 100 \<Longrightarrow> length (decimal n) = 2"
  by (subst decimal.simps) (simp add: decimal_length_1)

lemma decimal_length_3: "100 \<le> n \<Longrightarrow> n < 1000 \<Longrightarrow> length (decimal n) = 3"
  by (subst decimal.simps) (simp add: decimal_length_2)

lemma decimal_length_4: "1000 \<le> n \<Longrightarrow> n < 10000 \<Longrightarrow> length (decimal n) = 4"
  by (subst decimal.simps) (simp add: decimal_length_3)

lemma padStart2_two:
  "n < 100 \<Longrightarrow> length (padStart2 (decimal n)) = 2 \<and> list_all isDigit (padStart2 (decimal n))"
proof (cases "n < 10")
  case True
  then show ?thesis
    using decimal_digits [of n] by (simp add: padStart2_def decimal_length_1 isDigit_def)
next
  case False
  assume "n < 100"
  with False show ?thesis
    using decimal_digits [of n] by (simp add: padStart2_def decimal_length_2)
qed

lemma getTimestampedFileName_pattern:
  assumes "1000 \<le> fullYear now" "fullYear now < 10000" "month now < 12" "dayOfMonth now < 32"
    "hours now < 24" "minutes now < 60" "seconds now < 60"
  shows "\<exists>date time. getTimestampedFileName pfx now = pfx @ ''_'' @ date @ ''_'' @ time @ ''.txt''
    \<and> length date = 8 \<and> length time = 6 \<and> list_all isDigit date \<and> list_all isDigit time"
proof -
  define date where "date = decimal (fullYear now) @ padStart2 (decimal (month now + 1))
      @ padStart2 (decimal (dayOfMonth now))"
  define time where "time = padStart2 (decimal (hours now)) @ padStart2 (decimal (minutes now))
      @ padStart2 (decimal (seconds now))"
  have "getTimestampedFileName pfx now = pfx @ ''_'' @ date @ ''_'' @ time @ ''.txt''"
    by (simp add: getTimestampedFileName_def Let_def date_def time_def)
  moreover have "length date = 8" "list_all isDigit date"
    using assms(1-4) decimal_digits [of "fullYear now"]
      padStart2_two [of "month now + 1"] padStart2_two [of "dayOfMonth now"]
    by (simp_all add: date_def decimal_length_4)
  moreover have "length time = 6" "list_all isDigit time"
    using assms(5-7) padStart2_two [of "hours now"] padStart2_two [of "minutes now"]
      padStart2_two [of "seconds now"]
    by (simp_all add: time_def)
  ultimately show ?thesis
    by blast
qed

lemma sample_default_name:
  "getTimestampedFileName ''diff'' sampleClock = ''diff_20251228_212945.txt''"
  by code_simp

lemma pathEntryEnter_resets:
  "fst (pathEntryEnter now s) = s\<lparr>inputMode := Normal, pathInput := '''', cursorPosition := 0\<rparr>"
  by (simp add: pathEntryEnter_def Let_def)

lemma pathEntryEnter_empty_multi_export:
  "inputMode s = ExportPath \<Longrightarrow> focusPane s = Files \<Longrightarrow> selectedPaths s \<noteq> {} \<Longrightarrow>
   trim (pathInput s) = '''' \<Longrightarrow>
   snd (pathEntryEnter now s)
     = Some (HandleExportMultiple (''./'' @ getTimestampedFileName ''diff'' now))"
  by (simp add: pathEntryEnter_def Let_def)

text \<open>
  C8. Confirming path entry hands the trimmed buffer to the export routine. The buffer
  \<^verbatim>\<open>" out.txt"\<close> (one leading space), confirmed for multi-file export with one file
  selected, reaches \<^verbatim>\<open>handleExportMultiple\<close> with the space still in front, although the
  mode, buffer and cursor are reset; the same buffer confirmed in the commits pane reaches
  \<^verbatim>\<open>handleExportCommits\<close> trimmed.
\<close>

theorem pathEntryEnter_multi_export_untrimmed:
  "pathEntryEnter now
     (initialState\<lparr>inputMode := ExportPath, selectedPaths := {''src/a.ts''},
        pathInput := '' out.txt'', cursorPosition := 8\<rparr>)
   = (initialState\<lparr>inputMode := Normal, selectedPaths := {''src/a.ts''},
        pathInput := '''', cursorPosition := 0\<rparr>,
      Some (HandleExportMultiple '' out.txt''))
   \<and> snd (pathEntryEnter now
     (initialState\<lparr>inputMode := ExportPath, focusPane := Commits,
        pathInput := '' out.txt'', cursorPosition := 8\<rparr>))
   = Some (HandleExportCommits ''out.txt'')"
  by (simp add: pathEntryEnter_def initialState_def Let_def trim_def isWhiteSpace_def)

section \<open>The unified list and the group toggle\<close>

lemma fold_delete_paths:
  "fold (\<lambda>f newSet. newSet - {path f}) files sel = sel - set (map path files)"
  by (induction files arbitrary: sel) auto

lemma fold_add_paths:
  "fold (\<lambda>f newSet. insert (path f) newSet) files sel = sel \<union> set (map path files)"
  by (induction files arbitrary: sel) auto

lemma every_selected:
  "list_all (\<lambda>f. path f \<in> sel) files \<longleftrightarrow> set (map path files) \<subseteq> sel"
  by (auto simp: list_all_iff)

lemma fold_push: "fold (\<lambda>x items. items @ [f x]) xs items = items @ map f xs"
  by (induction xs arbitrary: items) simp_all

lemma allItems_rows:
  "allItems s =
     (if viewMode s = Flat then
        (if unstagedFiles s \<noteq> [] then
           GroupItem ''Changes'' (length (unstagedFiles s))
           # map (\<lambda>file. FileItem (Some file) (Some Unstaged) None) (unstagedFiles s)
         else [])
        @ (if stagedFiles s \<noteq> [] then
             GroupItem ''Staged Changes'' (length (stagedFiles s))
             # map (\<lambda>file. FileItem (Some file) (Some Staged) None) (stagedFiles s)
           else [])
      else
        (if unstagedFiles s \<noteq> [] then
           GroupItem ''Changes'' (length (unstagedFiles s))
           # map treeItem (flattenTree (buildFileTree (unstagedFiles s) Unstaged) (collapsedDirs s))
         else [])
        @ (if stagedFiles s \<noteq> [] then
             GroupItem ''Staged Changes'' (length (stagedFiles s))
             # map treeItem (flattenTree (buildFileTree (stagedFiles s) Staged) (collapsedDirs s))
           else []))"
  by (simp add: allItems_def Let_def fold_push)

lemma group_rows:
  assumes "GroupItem label count \<in> set (allItems s)"
  shows "(label = ''Changes'' \<and> count = length (unstagedFiles s) \<and> unstagedFiles s \<noteq> [])
       \<or> (label = ''Staged Changes'' \<and> count = length (stagedFiles s) \<and> stagedFiles s \<noteq> [])"
  using assms
  by (auto simp: allItems_rows treeItem_def split: if_splits)

lemma itemAt_mem: "itemAt xs i = Some x \<Longrightarrow> x \<in> set xs"
  by (auto simp: itemAt_def split: if_splits)

lemma itemAt_first: "itemAt (x # xs) 0 = Some x"
  by (simp add: itemAt_def)

lemma allItems_selectedPaths: "allItems (s\<lparr>selectedPaths := sel\<rparr>) = allItems s"
  by (simp add: allItems_def)

lemma spaceKey_group:
  assumes "focusPane s = Files"
    and "itemAt (allItems s) (selectedIndex s) = Some (GroupItem label count)"
  shows "spaceKey s =
     s\<lparr>selectedPaths :=
         (let ps = set (map path (if label = ''Staged Changes'' then stagedFiles s
                                  else unstagedFiles s))
          in if ps \<subseteq> selectedPaths s then selectedPaths s - ps else selectedPaths s \<union> ps)\<rparr>"
  using assms
  by (simp add: spaceKey_def Let_def fold_delete_paths fold_add_paths every_selected)

lemma scenario_header:
  "itemAt (allItems (scenarioState\<lparr>selectedPaths := sel, viewMode := vm, collapsedDirs := cd\<rparr>))
     (selectedIndex (scenarioState\<lparr>selectedPaths := sel, viewMode := vm, collapsedDirs := cd\<rparr>))
   = Some (GroupItem ''Changes'' 2)"
  by (simp add: allItems_rows scenarioState_def initialState_def itemAt_first)

text \<open>
  C2. With the files pane focused and the focus on a group header, the header is that
  of the unstaged group (\<^verbatim>\<open>Changes\<close>) or of the staged group (\<^verbatim>\<open>Staged Changes\<close>), and
  Space removes all paths of that group's file list from the selection when every one
  of them is selected, and otherwise adds all of them; nothing else in the state changes.
\<close>

theorem group_toggle_all_or_nothing:
  assumes "focusPane s = Files"
    and "itemAt (allItems s) (selectedIndex s) = Some (GroupItem label count)"
    and "groupPaths = set (map path (if label = ''Staged Changes'' then stagedFiles s
                                     else unstagedFiles s))"
  shows "(label = ''Changes'' \<or> label = ''Staged Changes'')
    \<and> spaceKey s =
        s\<lparr>selectedPaths :=
            (if groupPaths \<subseteq> selectedPaths s then selectedPaths s - groupPaths
             else selectedPaths s \<union> groupPaths)\<rparr>"
proof -
  from assms(2) have "GroupItem label count \<in> set (allItems s)"
    by (rule itemAt_mem)
  then have "label = ''Changes'' \<or> label = ''Staged Changes''"
    using group_rows by blast
  moreover have "spaceKey s =
        s\<lparr>selectedPaths :=
            (if groupPaths \<subseteq> selectedPaths s then selectedPaths s - groupPaths
             else selectedPaths s \<union> groupPaths)\<rparr>"
    using spaceKey_group [OF assms(1,2)] by (simp add: Let_def assms(3))
  ultimately show ?thesis by simp
qed

theorem group_toggle_all_or_nothing_witness:
  "selectedPaths (spaceKey (scenarioState\<lparr>selectedPaths := {''src/a.ts''}\<rparr>))
     = {''src/a.ts'', ''src/b.ts''}"
proof -
  have pane: "focusPane (scenarioState\<lparr>selectedPaths := {''src/a.ts''}\<rparr>) = Files"
    by (simp add: scenarioState_def initialState_def)
  have header: "itemAt (allItems (scenarioState\<lparr>selectedPaths := {''src/a.ts''}\<rparr>))
      (selectedIndex (scenarioState\<lparr>selectedPaths := {''src/a.ts''}\<rparr>))
      = Some (GroupItem ''Changes'' 2)"
    by (simp add: allItems_rows scenarioState_def initialState_def itemAt_first)
  show ?thesis
    using group_toggle_all_or_nothing [OF pane header refl]
    by (auto simp: scenarioState_def initialState_def fileA_def fileB_def)
qed

text \<open>
  C3 as stated fails: with \<^verbatim>\<open>src/a.ts\<close> selected out of the two unstaged files, the first
  press selects both and the second deselects both, so \<^verbatim>\<open>src/a.ts\<close> is lost.
\<close>

theorem group_toggle_twice_counterexample:
  "selectedPaths (spaceKey (spaceKey (scenarioState\<lparr>selectedPaths := {''src/a.ts''}\<rparr>)))
     \<noteq> selectedPaths (scenarioState\<lparr>selectedPaths := {''src/a.ts''}\<rparr>)"
proof -
  have pane: "focusPane (scenarioState\<lparr>selectedPaths := sel\<rparr>) = Files" for sel
    by (simp add: scenarioState_def initialState_def)
  have header: "itemAt (allItems (scenarioState\<lparr>selectedPaths := sel\<rparr>))
      (selectedIndex (scenarioState\<lparr>selectedPaths := sel\<rparr>)) = Some (GroupItem ''Changes'' 2)" for sel
    by (simp add: allItems_rows scenarioState_def initialState_def itemAt_first)
  have unstaged: "unstagedFiles (scenarioState\<lparr>selectedPaths := sel\<rparr>) = [fileA, fileB]" for sel
    by (simp add: scenarioState_def)
  have first: "spaceKey (scenarioState\<lparr>selectedPaths := {''src/a.ts''}\<rparr>)
      = scenarioState\<lparr>selectedPaths := {''src/a.ts'', ''src/b.ts''}\<rparr>"
    by (subst spaceKey_group [OF pane header])
      (simp add: unstaged fileA_def fileB_def Let_def insert_commute)
  have second: "spaceKey (scenarioState\<lparr>selectedPaths := {''src/a.ts'', ''src/b.ts''}\<rparr>)
      = scenarioState\<lparr>selectedPaths := {}\<rparr>"
    by (subst spaceKey_group [OF pane header])
      (simp add: unstaged fileA_def fileB_def Let_def)
  show ?thesis
    by (simp add: first second)
qed

text \<open>
  C3, amended. Two presses of Space on a group header, with nothing in between, give back
  the original selection when every path of the group was selected (and so also when the
  group has no path); otherwise they leave the original selection minus the group's
  paths, which is the original selection exactly when none of the group's paths was
  selected.
\<close>

theorem group_toggle_twice:
  assumes "focusPane s = Files"
    and "itemAt (allItems s) (selectedIndex s) = Some (GroupItem label count)"
    and "groupPaths = set (map path (if label = ''Staged Changes'' then stagedFiles s
                                     else unstagedFiles s))"
  shows "selectedPaths (spaceKey (spaceKey s)) =
           (if groupPaths \<subseteq> selectedPaths s then selectedPaths s
            else selectedPaths s - groupPaths)
    \<and> (groupPaths \<subseteq> selectedPaths s \<or> groupPaths \<inter> selectedPaths s = {}
        \<longrightarrow> selectedPaths (spaceKey (spaceKey s)) = selectedPaths s)"
proof -
  define sel' where "sel' =
      (if groupPaths \<subseteq> selectedPaths s then selectedPaths s - groupPaths
       else selectedPaths s \<union> groupPaths)"
  have first: "spaceKey s = s\<lparr>selectedPaths := sel'\<rparr>"
    using spaceKey_group [OF assms(1,2)] by (simp add: Let_def assms(3) sel'_def)
  have pane': "focusPane (s\<lparr>selectedPaths := sel'\<rparr>) = Files"
    using assms(1) by simp
  have header': "itemAt (allItems (s\<lparr>selectedPaths := sel'\<rparr>))
      (selectedIndex (s\<lparr>selectedPaths := sel'\<rparr>)) = Some (GroupItem label count)"
    using assms(2) by (simp add: allItems_selectedPaths)
  have second: "selectedPaths (spaceKey (s\<lparr>selectedPaths := sel'\<rparr>)) =
      (if groupPaths \<subseteq> sel' then sel' - groupPaths else sel' \<union> groupPaths)"
    by (subst spaceKey_group [OF pane' header']) (simp add: Let_def assms(3))
  have "selectedPaths (spaceKey (spaceKey s)) =
           (if groupPaths \<subseteq> selectedPaths s then selectedPaths s
            else selectedPaths s - groupPaths)"
    by (simp only: first second) (auto simp: sel'_def)
  then show ?thesis by auto
qed

theorem group_toggle_twice_witness:
  "selectedPaths (spaceKey (spaceKey (scenarioState\<lparr>selectedPaths := {''README.md''}\<rparr>)))
     = {''README.md''}"
proof -
  have pane: "focusPane (scenarioState\<lparr>selectedPaths := {''README.md''}\<rparr>) = Files"
    by (simp add: scenarioState_def initialState_def)
  have header: "itemAt (allItems (scenarioState\<lparr>selectedPaths := {''README.md''}\<rparr>))
      (selectedIndex (scenarioState\<lparr>selectedPaths := {''README.md''}\<rparr>))
      = Some (GroupItem ''Changes'' 2)"
    by (simp add: allItems_rows scenarioState_def initialState_def itemAt_first)
  show ?thesis
    using group_toggle_twice [OF pane header refl]
    by (auto simp: scenarioState_def initialState_def fileA_def fileB_def)
qed

text \<open>
  C10. Two states of the files pane that differ only in the collapse set (and in where
  the focus sits), each with the focus on the header of the same group: Space gives the
  same selection in both, namely the all-or-nothing toggle over the group's whole file
  list, whichever of its files the collapse set hides.
\<close>

theorem group_toggle_ignores_collapse:
  assumes "focusPane s = Files"
    and "itemAt (allItems s) (selectedIndex s) = Some (GroupItem label count)"
    and "s' = s\<lparr>collapsedDirs := collapsed', selectedIndex := i'\<rparr>"
    and "itemAt (allItems s') (selectedIndex s') = Some (GroupItem label count')"
    and "groupPaths = set (map path (if label = ''Staged Changes'' then stagedFiles s
                                     else unstagedFiles s))"
  shows "selectedPaths (spaceKey s') = selectedPaths (spaceKey s)
    \<and> selectedPaths (spaceKey s) =
        (if groupPaths \<subseteq> selectedPaths s then selectedPaths s - groupPaths
         else selectedPaths s \<union> groupPaths)"
proof -
  have pane': "focusPane s' = Files"
    using assms(1,3) by simp
  have "selectedPaths (spaceKey s) =
        (if groupPaths \<subseteq> selectedPaths s then selectedPaths s - groupPaths
         else selectedPaths s \<union> groupPaths)"
    by (subst spaceKey_group [OF assms(1,2)]) (simp add: Let_def assms(5))
  moreover have "selectedPaths (spaceKey s') =
        (if groupPaths \<subseteq> selectedPaths s then selectedPaths s - groupPaths
         else selectedPaths s \<union> groupPaths)"
    by (subst spaceKey_group [OF pane' assms(4)]) (simp add: Let_def assms(3,5))
  ultimately show ?thesis by simp
qed

theorem group_toggle_ignores_collapse_witness:
  "selectedPaths (spaceKey (scenarioState\<lparr>viewMode := Tree, collapsedDirs := {''src''}\<rparr>))
     = selectedPaths (spaceKey (scenarioState\<lparr>viewMode := Tree\<rparr>))
   \<and> selectedPaths (spaceKey (scenarioState\<lparr>viewMode := Tree\<rparr>)) = {''src/a.ts'', ''src/b.ts''}"
proof -
  have pane: "focusPane (scenarioState\<lparr>viewMode := Tree\<rparr>) = Files"
    by (simp add: scenarioState_def initialState_def)
  have header: "itemAt (allItems (scenarioState\<lparr>viewMode := Tree\<rparr>))
      (selectedIndex (scenarioState\<lparr>viewMode := Tree\<rparr>)) = Some (GroupItem ''Changes'' 2)"
    by (simp add: allItems_rows scenarioState_def initialState_def itemAt_first)
  have other: "scenarioState\<lparr>viewMode := Tree, collapsedDirs := {''src''}\<rparr>
      = (scenarioState\<lparr>viewMode := Tree\<rparr>)\<lparr>collapsedDirs := {''src''}, selectedIndex := 0\<rparr>"
    by (simp add: scenarioState_def initialState_def)
  have header': "itemAt (allItems (scenarioState\<lparr>viewMode := Tree, collapsedDirs := {''src''}\<rparr>))
      (selectedIndex (scenarioState\<lparr>viewMode := Tree, collapsedDirs := {''src''}\<rparr>))
      = Some (GroupItem ''Changes'' 2)"
    by (simp add: allItems_rows scenarioState_def initialState_def itemAt_first)
  show ?thesis
    using group_toggle_ignores_collapse [OF pane header other header' refl]
    by (auto simp: scenarioState_def initialState_def fileA_def fileB_def)
qed

section \<open>The files-pane scroll window\<close>

lemma mainAreaHeight_ge: "3 \<le> mainAreaHeight s"
  by (simp add: mainAreaHeight_def)

lemma filesPaneHeight_pos: "1 \<le> filesPaneHeight s"
  using mainAreaHeight_ge [of s] by (simp add: filesPaneHeight_def)

lemma filesPaneHeight_lt_main: "filesPaneHeight s < mainAreaHeight s"
  using mainAreaHeight_ge [of s] by (simp add: filesPaneHeight_def)

lemma allItems_nav:
  "allItems (s\<lparr>selectedIndex := i, listScrollTop := t\<rparr>) = allItems s"
  by (simp add: allItems_def)

lemma filesPaneHeight_nav:
  "filesPaneHeight (s\<lparr>selectedIndex := i, listScrollTop := t\<rparr>) = filesPaneHeight s"
  by (simp add: filesPaneHeight_def mainAreaHeight_def adjustedRows_def)

lemma allItems_onResize: "allItems (onResize r s) = allItems s"
  by (simp add: allItems_def onResize_def)

lemma filesPaneHeight_rebuildRows:
  "filesPaneHeight (rebuildRows u st vm cd s) = filesPaneHeight s"
  by (simp add: filesPaneHeight_def mainAreaHeight_def adjustedRows_def rebuildRows_def)

lemma reclampEffect_in_range:
  "0 \<le> selectedIndex s \<Longrightarrow> selectedIndex s < int (length (allItems s)) \<Longrightarrow>
     reclampEffect s = s"
  by (auto simp: reclampEffect_def)

text \<open>
  C1 as stated fails on a viewport resize. Three rows (the header and the two unstaged
  files), focus on the last one, 24 terminal rows: the pane shows 8 rows and the focus
  is visible. The terminal shrinks to 11 rows, the pane to 1 row; the effect leaves
  \<^verbatim>\<open>selectedIndex = 2\<close> and \<^verbatim>\<open>listScrollTop = 0\<close> as they are, since the index is in range.
\<close>

theorem scroll_window_resize_counterexample:
  "focusVisible (scenarioState\<lparr>selectedIndex := 2\<rparr>)
   \<and> length (allItems (onResize 11 (scenarioState\<lparr>selectedIndex := 2\<rparr>))) = 3
   \<and> reclampEffect (onResize 11 (scenarioState\<lparr>selectedIndex := 2\<rparr>))
       = onResize 11 (scenarioState\<lparr>selectedIndex := 2\<rparr>)
   \<and> filesPaneHeight (onResize 11 (scenarioState\<lparr>selectedIndex := 2\<rparr>)) = 1
   \<and> \<not> focusVisible (reclampEffect (onResize 11 (scenarioState\<lparr>selectedIndex := 2\<rparr>)))"
proof -
  have rows3: "length (allItems (onResize 11 (scenarioState\<lparr>selectedIndex := 2\<rparr>))) = 3"
    by (simp add: allItems_rows onResize_def scenarioState_def initialState_def)
  have same: "reclampEffect (onResize 11 (scenarioState\<lparr>selectedIndex := 2\<rparr>))
      = onResize 11 (scenarioState\<lparr>selectedIndex := 2\<rparr>)"
    by (rule reclampEffect_in_range) (simp add: onResize_def, simp add: rows3, simp add: onResize_def)
  have h1: "filesPaneHeight (onResize 11 (scenarioState\<lparr>selectedIndex := 2\<rparr>)) = 1"
    by (simp add: filesPaneHeight_def mainAreaHeight_def adjustedRows_def onResize_def
        scenarioState_def initialState_def)
  have before: "focusVisible (scenarioState\<lparr>selectedIndex := 2\<rparr>)"
    by (simp add: focusVisible_def filesPaneHeight_def mainAreaHeight_def adjustedRows_def
        scenarioState_def initialState_def)
  have after: "\<not> focusVisible (onResize 11 (scenarioState\<lparr>selectedIndex := 2\<rparr>))"
    unfolding focusVisible_def h1
    by (simp add: onResize_def scenarioState_def initialState_def)
  show ?thesis
    using before rows3 same h1 after by simp
qed

text \<open>
  The effect that follows a rebuild computes the scroll offset from \<^verbatim>\<open>mainAreaHeight\<close>,
  the height of the whole main area, while the keys and the rendered slice use
  \<^verbatim>\<open>filesPaneHeight\<close>, half of it. Thirteen rows, focus on the last one and visible; the
  list loses one file; the effect puts the focus on row 11 with offset 0, and the pane
  shows rows 0 to 7.
\<close>

lemma reclampEffect_after_shrink:
  "focusVisible (initialState\<lparr>unstagedFiles := twelveFiles, selectedIndex := 12, listScrollTop := 5\<rparr>)
   \<and> selectedIndex (reclampEffect (rebuildRows (butlast twelveFiles) [] Flat {}
        (initialState\<lparr>unstagedFiles := twelveFiles, selectedIndex := 12, listScrollTop := 5\<rparr>))) = 11
   \<and> listScrollTop (reclampEffect (rebuildRows (butlast twelveFiles) [] Flat {}
        (initialState\<lparr>unstagedFiles := twelveFiles, selectedIndex := 12, listScrollTop := 5\<rparr>))) = 0
   \<and> \<not> focusVisible (reclampEffect (rebuildRows (butlast twelveFiles) [] Flat {}
        (initialState\<lparr>unstagedFiles := twelveFiles, selectedIndex := 12, listScrollTop := 5\<rparr>)))"
proof -
  have len: "length twelveFiles = 12"
    by (simp add: twelveFiles_def)
  have ne: "butlast twelveFiles \<noteq> []"
  proof
    assume "butlast twelveFiles = []"
    then have "length (butlast twelveFiles) = 0"
      by (simp only: list.size)
    with len show False
      by simp
  qed
  show ?thesis
    using len ne
    by (simp add: focusVisible_def reclampEffect_def rebuildRows_def allItems_rows
        filesPaneHeight_def mainAreaHeight_def adjustedRows_def initialState_def Let_def)
qed

text \<open>
  C1, amended. In the files pane with at least one row, from a state whose focus is a
  row of the list and is visible (\<open>0 \<le> scrollTop \<le> focusIndex \<le> scrollTop + height - 1\<close>,
  \<open>height\<close> the height of the files pane), an up or down keystroke moves the focus by one
  row inside the list, sets the offset by the scroll rule, and leaves the focus visible.
  A rebuild that leaves fewer than \<open>focusIndex + 1\<close> rows re-clamps the focus to
  \<open>max(0, totalRows - 1)\<close> and gives an offset with \<open>0 \<le> scrollTop' \<le> focusIndex\<close>; a rebuild
  that leaves the focus inside the list changes neither the focus nor the offset, and the
  focus stays visible. A viewport resize changes neither the focus nor the offset.
\<close>

theorem scroll_window_clamp:
  assumes "focusPane s = Files" and "0 < length (allItems s)"
    and "focusVisible s" and "selectedIndex s < int (length (allItems s))"
    and "t = rebuildRows unstaged staged mode collapsed s"
  shows "selectedIndex (reclampEffect (upKey s)) = max (selectedIndex s - 1) 0
    \<and> listScrollTop (reclampEffect (upKey s))
        = specClamp (selectedIndex (reclampEffect (upKey s))) (listScrollTop s) (filesPaneHeight s)
    \<and> focusVisible (reclampEffect (upKey s))
    \<and> selectedIndex (reclampEffect (downKey s))
        = min (selectedIndex s + 1) (int (length (allItems s)) - 1)
    \<and> listScrollTop (reclampEffect (downKey s))
        = specClamp (selectedIndex (reclampEffect (downKey s))) (listScrollTop s) (filesPaneHeight s)
    \<and> focusVisible (reclampEffect (downKey s))
    \<and> (int (length (allItems t)) < selectedIndex s + 1 \<longrightarrow>
         selectedIndex (reclampEffect t) = max 0 (int (length (allItems t)) - 1)
         \<and> 0 \<le> listScrollTop (reclampEffect t)
         \<and> listScrollTop (reclampEffect t) \<le> selectedIndex (reclampEffect t))
    \<and> (selectedIndex s + 1 \<le> int (length (allItems t)) \<longrightarrow>
         selectedIndex (reclampEffect t) = selectedIndex s
         \<and> listScrollTop (reclampEffect t) = listScrollTop s
         \<and> focusVisible (reclampEffect t))
    \<and> selectedIndex (reclampEffect (onResize stdoutRows s)) = selectedIndex s
    \<and> listScrollTop (reclampEffect (onResize stdoutRows s)) = listScrollTop s"
proof -
  let ?n = "int (length (allItems s))"
  let ?h = "filesPaneHeight s"
  from assms(3) have vis: "0 \<le> listScrollTop s" "listScrollTop s \<le> selectedIndex s"
    "selectedIndex s \<le> listScrollTop s + ?h - 1"
    by (simp_all add: focusVisible_def)
  have n: "0 < ?n" using assms(2) by simp
  have h: "1 \<le> ?h" by (rule filesPaneHeight_pos)
  have hdef: "mainAreaHeight s * 2 div 4 = ?h" by (simp add: filesPaneHeight_def)
  \<comment> \<open>up\<close>
  have up: "upKey s = s\<lparr>selectedIndex := max (selectedIndex s - 1) 0,
      listScrollTop := (if max (selectedIndex s - 1) 0 < listScrollTop s
                        then max (selectedIndex s - 1) 0 else listScrollTop s)\<rparr>"
    using assms(1) by (simp add: upKey_def Let_def)
  have up_in: "selectedIndex (upKey s) < int (length (allItems (upKey s)))"
    using assms(4) n by (simp add: up allItems_nav)
  have up_nn: "0 \<le> selectedIndex (upKey s)"
    by (simp add: up)
  have up_same: "reclampEffect (upKey s) = upKey s"
    using up_nn up_in by (rule reclampEffect_in_range)
  have up1: "selectedIndex (upKey s) = max (selectedIndex s - 1) 0"
    by (simp add: up)
  have up2: "listScrollTop (upKey s)
      = specClamp (selectedIndex (upKey s)) (listScrollTop s) ?h"
    using vis h by (auto simp: up specClamp_def)
  have up3: "focusVisible (upKey s)"
    using vis h by (auto simp: up focusVisible_def filesPaneHeight_nav)
  \<comment> \<open>down\<close>
  have down: "downKey s = s\<lparr>selectedIndex := min (selectedIndex s + 1) (?n - 1),
      listScrollTop := (if min (selectedIndex s + 1) (?n - 1) \<ge> listScrollTop s + ?h
                        then min (selectedIndex s + 1) (?n - 1) - ?h + 1 else listScrollTop s)\<rparr>"
    using assms(1) by (simp add: downKey_def Let_def hdef)
  have down_in: "selectedIndex (downKey s) < int (length (allItems (downKey s)))"
    using assms(4) n by (simp add: down allItems_nav)
  have down_nn: "0 \<le> selectedIndex (downKey s)"
    using vis n by (simp add: down)
  have down_same: "reclampEffect (downKey s) = downKey s"
    using down_nn down_in by (rule reclampEffect_in_range)
  have down1: "selectedIndex (downKey s) = min (selectedIndex s + 1) (?n - 1)"
    by (simp add: down)
  have down2: "listScrollTop (downKey s)
      = specClamp (selectedIndex (downKey s)) (listScrollTop s) ?h"
    using vis h assms(4) by (auto simp: down specClamp_def)
  have down3: "focusVisible (downKey s)"
    using vis h assms(4) by (auto simp: down focusVisible_def filesPaneHeight_nav)
  \<comment> \<open>rebuild\<close>
  have t_sel: "selectedIndex t = selectedIndex s" "listScrollTop t = listScrollTop s"
    by (simp_all add: assms(5) rebuildRows_def)
  have t_h: "filesPaneHeight t = ?h"
    by (simp add: assms(5) filesPaneHeight_rebuildRows)
  have shrink: "int (length (allItems t)) < selectedIndex s + 1 \<Longrightarrow>
         selectedIndex (reclampEffect t) = max 0 (int (length (allItems t)) - 1)
         \<and> 0 \<le> listScrollTop (reclampEffect t)
         \<and> listScrollTop (reclampEffect t) \<le> selectedIndex (reclampEffect t)"
    using mainAreaHeight_ge [of t] by (simp add: reclampEffect_def t_sel Let_def)
  have keep: "selectedIndex s + 1 \<le> int (length (allItems t)) \<Longrightarrow>
         selectedIndex (reclampEffect t) = selectedIndex s
         \<and> listScrollTop (reclampEffect t) = listScrollTop s
         \<and> focusVisible (reclampEffect t)"
    using vis by (simp add: reclampEffect_in_range t_sel focusVisible_def t_h)
  \<comment> \<open>resize\<close>
  have "selectedIndex (onResize stdoutRows s) < int (length (allItems (onResize stdoutRows s)))"
    using assms(4) by (simp add: allItems_onResize) (simp add: onResize_def)
  moreover have "0 \<le> selectedIndex (onResize stdoutRows s)"
    using vis by (simp add: onResize_def)
  ultimately have resize: "reclampEffect (onResize stdoutRows s) = onResize stdoutRows s"
    by (simp add: reclampEffect_in_range)
  have resize': "selectedIndex (onResize stdoutRows s) = selectedIndex s"
    "listScrollTop (onResize stdoutRows s) = listScrollTop s"
    by (simp_all add: onResize_def)
  from shrink keep resize' show ?thesis
    unfolding up_same down_same resize
    by (intro conjI impI up1 up2 up3 down1 down2 down3) blast+
qed

theorem scroll_window_clamp_witness:
  "selectedIndex (reclampEffect (downKey (scenarioState\<lparr>selectedIndex := 1\<rparr>))) = 2
   \<and> focusVisible (reclampEffect (downKey (scenarioState\<lparr>selectedIndex := 1\<rparr>)))
   \<and> selectedIndex (reclampEffect (rebuildRows [fileA] [] Flat {} (scenarioState\<lparr>selectedIndex := 1\<rparr>))) = 1
   \<and> selectedIndex (reclampEffect (rebuildRows [] [] Flat {} (scenarioState\<lparr>selectedIndex := 1\<rparr>))) = 0"
proof -
  have pane: "focusPane (scenarioState\<lparr>selectedIndex := 1\<rparr>) = Files"
    by (simp add: scenarioState_def initialState_def)
  have rows3: "length (allItems (scenarioState\<lparr>selectedIndex := 1\<rparr>)) = 3"
    by (simp add: allItems_rows scenarioState_def initialState_def)
  have total: "0 < length (allItems (scenarioState\<lparr>selectedIndex := 1\<rparr>))"
    by (simp add: rows3)
  have vis: "focusVisible (scenarioState\<lparr>selectedIndex := 1\<rparr>)"
    by (simp add: focusVisible_def filesPaneHeight_def mainAreaHeight_def adjustedRows_def
        scenarioState_def initialState_def)
  have inside: "selectedIndex (scenarioState\<lparr>selectedIndex := 1\<rparr>)
      < int (length (allItems (scenarioState\<lparr>selectedIndex := 1\<rparr>)))"
    by (simp add: rows3)
  have rows2: "length (allItems (rebuildRows [fileA] [] Flat {} (scenarioState\<lparr>selectedIndex := 1\<rparr>))) = 2"
    by (simp add: allItems_rows rebuildRows_def)
  have rows0: "length (allItems (rebuildRows [] [] Flat {} (scenarioState\<lparr>selectedIndex := 1\<rparr>))) = 0"
    by (simp add: allItems_rows rebuildRows_def)
  show ?thesis
    using scroll_window_clamp [OF pane total vis inside refl, of "[fileA]" "[]" Flat "{}"]
      scroll_window_clamp [OF pane total vis inside refl, of "[]" "[]" Flat "{}"]
    by (simp add: rows3 rows2 rows0)
qed

section \<open>Flattening the tree\<close>

lemma walk_ancestors:
  "list_all (\<lambda>entry. set anc \<subseteq> set (fst entry)) (walk anc nodes)"
proof (induction anc nodes rule: walk.induct)
  case (1 anc)
  then show ?case by simp
next
  case (2 anc name pth ty children fl grp depth nodes)
  have below: "list_all (\<lambda>entry. set anc \<subseteq> set (fst entry)) (walk (anc @ [pth]) cs)"
    if "ty = Directory" "children = Some cs" for cs
  proof -
    have "list_all (\<lambda>entry. set (anc @ [pth]) \<subseteq> set (fst entry)) (walk (anc @ [pth]) cs)"
      using "2.IH"(1) that by simp
    then show ?thesis
      by (rule list.pred_mono_strong) simp
  qed
  show ?case
  proof (cases "ty = Directory")
    case True
    then show ?thesis
      using below "2.IH"(2) by (cases children) simp_all
  next
    case False
    then show ?thesis
      using "2.IH"(2) by simp
  qed
qed

lemma walk_hidden:
  assumes "\<not> list_all (\<lambda>p. p \<notin> C) anc"
  shows "filter (uncollapsedChain C) (walk anc nodes) = []"
proof -
  have "\<not> uncollapsedChain C entry" if "set anc \<subseteq> set (fst entry)" for entry
    using assms that by (auto simp: uncollapsedChain_def list_all_iff)
  then have "list_all (\<lambda>entry. \<not> uncollapsedChain C entry) (walk anc nodes)"
    using walk_ancestors [of anc nodes] by (auto simp: list_all_iff)
  then show ?thesis
    by (simp add: filter_empty_conv list_all_iff)
qed

lemma traverse_walk:
  "list_all (\<lambda>p. p \<notin> C) anc \<Longrightarrow>
     traverse C nodes = map snd (filter (uncollapsedChain C) (walk anc nodes))"
proof (induction C nodes arbitrary: anc rule: traverse.induct)
  case (1 C)
  then show ?case by simp
next
  case (2 C name pth ty children fl grp depth nodes)
  have here: "uncollapsedChain C (anc, n)" for n
    using "2.prems" by (simp add: uncollapsedChain_def)
  have rest: "traverse C nodes = map snd (filter (uncollapsedChain C) (walk anc nodes))"
    using "2.IH"(2) "2.prems" by simp
  show ?case
  proof (cases "ty = Directory \<and> pth \<notin> C")
    case True
    then have chain: "list_all (\<lambda>p. p \<notin> C) (anc @ [pth])"
      using "2.prems" by simp
    have "traverse C cs = map snd (filter (uncollapsedChain C) (walk (anc @ [pth]) cs))"
      if "children = Some cs" for cs
      using "2.IH"(1) [OF True that chain] .
    then show ?thesis
      using True here rest by (cases children) simp_all
  next
    case False
    show ?thesis
    proof (cases "ty = Directory")
      case True
      with False have collapsed: "pth \<in> C"
        by simp
      have hidden: "filter (uncollapsedChain C) (walk (anc @ [pth]) cs) = []" for cs
        by (rule walk_hidden) (simp add: collapsed)
      show ?thesis
        using True collapsed here rest hidden by (cases children) simp_all
    next
      case other: False
      show ?thesis
        using other here rest by simp
    qed
  qed
qed

lemma flattenTree_visible:
  "flattenTree nodes C = map snd (filter (uncollapsedChain C) (walk [] nodes))"
  unfolding flattenTree_def by (rule traverse_walk) simp

lemma flattenTree_step:
  "flattenTree (node # nodes) C =
     node # (if node_type node = Directory \<and> node_path node \<notin> C
             then (case node_children node of Some cs \<Rightarrow> flattenTree cs C | None \<Rightarrow> [])
             else [])
     @ flattenTree nodes C"
  by (cases node) (simp add: flattenTree_def split: option.splits)

lemma uncollapsedChain_insert:
  "uncollapsedChain (insert p C) = (\<lambda>entry. uncollapsedChain C entry \<and> \<not> below p entry)"
  by (rule ext) (auto simp: uncollapsedChain_def below_def list_all_iff)

lemma length_filter_split:
  "length (filter P xs) = length (filter (\<lambda>x. P x \<and> \<not> Q x) xs) + length (filter (\<lambda>x. P x \<and> Q x) xs)"
  by (induction xs) simp_all

lemma flattenTree_expanded: "length (flattenTree nodes {}) = length (walk [] nodes)"
proof -
  have "uncollapsedChain {} = (\<lambda>entry. True)"
    by (rule ext) (simp add: uncollapsedChain_def list_all_iff)
  then show ?thesis
    by (simp add: flattenTree_visible)
qed

lemma flattenTree_single_expanded:
  "length (flattenTree [node] {}) = length (flattenTree [node] {node_path node}) + descendantCount node"
proof (cases node)
  case (TreeNode name pth ty children fl grp depth)
  show ?thesis
  proof (cases "ty = Directory")
    case True
    show ?thesis
    proof (cases children)
      case None
      then show ?thesis
        using True TreeNode by (simp add: flattenTree_def descendantCount_def)
    next
      case (Some cs)
      have "length (traverse {} cs) = length (walk [] cs)"
        using flattenTree_expanded [of cs] by (simp add: flattenTree_def)
      then show ?thesis
        using True TreeNode Some by (simp add: flattenTree_def descendantCount_def)
    qed
  next
    case False
    then show ?thesis
      using TreeNode by (simp add: flattenTree_def descendantCount_def)
  qed
qed

lemma sample_tree: "buildFileTree [fileC] Unstaged = [nodeA]"
  by (simp add: buildFileTree_def buildStore_def addFile_def pathParts_def fileC_def nodeA_def
      nodeB_def nodeC_def has_def linkToParent_def includesChar_def List.map_filter_def Let_def)

lemma sample_flat:
  "flattenTree [nodeA] {} = [nodeA, nodeB, nodeC]"
  "flattenTree [nodeA] {''a/b''} = [nodeA, nodeB]"
  "flattenTree [nodeA] {''a''} = [nodeA]"
  "flattenTree [nodeA] {''a'', ''a/b''} = [nodeA]"
  by (simp_all add: flattenTree_def nodeA_def nodeB_def nodeC_def)

text \<open>
  C4 as stated fails where a directory below the collapsed one is collapsed already. The
  tree built from the one file \<^verbatim>\<open>a/b/c.ts\<close> is \<^verbatim>\<open>a\<close> over \<^verbatim>\<open>a/b\<close> over the file. With
  \<^verbatim>\<open>a/b\<close> collapsed the output is \<^verbatim>\<open>a\<close>, \<^verbatim>\<open>a/b\<close>; collapsing \<^verbatim>\<open>a\<close> as well leaves \<^verbatim>\<open>a\<close>: one
  row goes, and \<^verbatim>\<open>a\<close> has two descendants.
\<close>

theorem flattenTree_collapse_counterexample:
  "buildFileTree [fileC] Unstaged = [nodeA]
   \<and> node_path nodeA = ''a'' \<and> descendantCount nodeA = 2
   \<and> flattenTree [nodeA] {''a/b''} = [nodeA, nodeB]
   \<and> flattenTree [nodeA] (insert ''a'' {''a/b''}) = [nodeA]
   \<and> length (flattenTree [nodeA] {''a/b''}) - length (flattenTree [nodeA] (insert ''a'' {''a/b''}))
       \<noteq> descendantCount nodeA"
proof -
  have count: "descendantCount nodeA = 2"
    by (simp add: descendantCount_def nodeA_def nodeB_def nodeC_def)
  have pth: "node_path nodeA = ''a''"
    by (simp add: nodeA_def)
  show ?thesis
    by (simp add: sample_tree sample_flat count pth)
qed

text \<open>
  C4, amended. Flattening is a depth-first pre-order traversal: a node is followed by the
  flattening of its children exactly when it is a directory whose path is not in the
  collapse set, then by its siblings. The output is the pre-order sequence of all nodes
  restricted to those with no collapsed directory above them, so its length is their
  number. Adding a path \<open>p\<close> to the collapse set removes from the output exactly the
  nodes shown so far that lie below a directory of path \<open>p\<close>, and the lengths differ by
  their number; for a tree with nothing collapsed, collapsing its top node removes the
  node's descendant count. When \<open>p\<close> was not in the collapse set, removing it again
  restores the same output.
\<close>

theorem flattenTree_collapse:
  "flattenTree (node # nodes) collapsed =
     node # (if node_type node = Directory \<and> node_path node \<notin> collapsed
             then (case node_children node of
                     Some cs \<Rightarrow> flattenTree cs collapsed | None \<Rightarrow> [])
             else [])
     @ flattenTree nodes collapsed
   \<and> flattenTree nodes collapsed
       = map snd (filter (uncollapsedChain collapsed) (walk [] nodes))
   \<and> length (flattenTree nodes collapsed)
       = length (filter (uncollapsedChain collapsed) (walk [] nodes))
   \<and> flattenTree nodes (insert p collapsed)
       = map snd (filter (\<lambda>entry. uncollapsedChain collapsed entry \<and> \<not> below p entry)
                    (walk [] nodes))
   \<and> length (flattenTree nodes collapsed)
       = length (flattenTree nodes (insert p collapsed))
         + length (filter (\<lambda>entry. uncollapsedChain collapsed entry \<and> below p entry)
                     (walk [] nodes))
   \<and> length (flattenTree [node] {})
       = length (flattenTree [node] {node_path node}) + descendantCount node
   \<and> (p \<notin> collapsed \<longrightarrow>
        flattenTree nodes (insert p collapsed - {p}) = flattenTree nodes collapsed)"
proof -
  have vis: "flattenTree nodes C = map snd (filter (uncollapsedChain C) (walk [] nodes))" for C
    by (rule flattenTree_visible)
  have ins: "flattenTree nodes (insert p collapsed)
       = map snd (filter (\<lambda>entry. uncollapsedChain collapsed entry \<and> \<not> below p entry)
                    (walk [] nodes))"
    by (simp add: vis uncollapsedChain_insert)
  have len: "length (flattenTree nodes collapsed)
       = length (flattenTree nodes (insert p collapsed))
         + length (filter (\<lambda>entry. uncollapsedChain collapsed entry \<and> below p entry)
                     (walk [] nodes))"
    unfolding ins unfolding vis length_map
    by (rule length_filter_split)
  have restored: "p \<notin> collapsed \<Longrightarrow>
        flattenTree nodes (insert p collapsed - {p}) = flattenTree nodes collapsed"
    by simp
  show ?thesis
    using flattenTree_step [of node nodes collapsed] vis [of collapsed] ins len restored
      flattenTree_single_expanded [of node]
    by simp
qed

theorem flattenTree_collapse_witness:
  "flattenTree [nodeA] (insert ''a/b'' {} - {''a/b''}) = [nodeA, nodeB, nodeC]
   \<and> flattenTree [nodeA] (insert ''a/b'' {}) = [nodeA, nodeB]
   \<and> length (filter (\<lambda>entry. uncollapsedChain {} entry \<and> below ''a/b'' entry) (walk [] [nodeA]))
       = descendantCount nodeB"
proof -
  have fresh: "''a/b'' \<notin> ({} :: string set)"
    by simp
  have count: "descendantCount nodeB = 1"
    by (simp add: descendantCount_def nodeB_def nodeC_def)
  from flattenTree_collapse [where nodes = "[nodeA]" and collapsed = "{}" and p = "''a/b''"] fresh
  have restored: "flattenTree [nodeA] (insert ''a/b'' {} - {''a/b''}) = flattenTree [nodeA] {}"
    and len: "length (flattenTree [nodeA] {})
       = length (flattenTree [nodeA] (insert ''a/b'' {}))
         + length (filter (\<lambda>entry. uncollapsedChain {} entry \<and> below ''a/b'' entry)
                     (walk [] [nodeA]))"
    by blast+
  from len have "length (filter (\<lambda>entry. uncollapsedChain {} entry \<and> below ''a/b'' entry)
      (walk [] [nodeA])) = 1"
    by (simp add: sample_flat)
  then show ?thesis
    using restored by (simp add: sample_flat count)
qed

section \<open>Building the tree: the store\<close>

lemma addParts_visit:
  "addParts file grp n i (part # parts) currentPath root =
     (if part = '''' then addParts file grp n (i + 1) parts currentPath root
      else addParts file grp n (i + 1) parts (childPath currentPath part)
             (visit file grp n i part currentPath root))"
  by (simp add: visit_def childPath_def newNode_def Let_def)

lemma setEntry_new:
  "k \<notin> set (map fst root) \<Longrightarrow> setEntry k v root = root @ [(k, v)]"
  by (induction root) auto

lemma setEntry_keys:
  "k \<in> set (map fst root) \<Longrightarrow> map fst (setEntry k v root) = map fst root"
  by (induction root) force+

lemma map_of_setEntry:
  "map_of (setEntry k v root) = (map_of root)(k \<mapsto> v)"
  by (induction root) (auto simp: fun_eq_iff)

lemma map_of_key: "map_of root k = Some v \<Longrightarrow> k \<in> set (map fst root)"
  by (metis map_of_eq_None_iff option.distinct(1) set_map)

lemma linkToParent_keys:
  "map fst (linkToParent parentPath currentPath root) = map fst root"
  by (simp add: linkToParent_def has_def setEntry_keys split: option.splits)

lemma visit_keys:
  "map fst (visit file grp n i part currentPath root)
     = seeFirst (childPath currentPath part) (map fst root)"
  by (simp add: visit_def has_def seeFirst_def linkToParent_keys setEntry_new)

lemma addParts_keys:
  "map fst (addParts file grp n i parts currentPath root)
     = fold seeFirst (runningPaths currentPath parts) (map fst root)"
proof (induction parts arbitrary: i currentPath root)
  case Nil
  then show ?case by simp
next
  case (Cons part parts)
  show ?case
    unfolding addParts_visit by (simp add: Cons visit_keys)
qed

lemma addFile_keys:
  "map fst (addFile grp file root) = fold seeFirst (recordPaths file) (map fst root)"
  by (simp add: addFile_def recordPaths_def addParts_keys Let_def)

lemma fold_addFile_keys:
  "map fst (fold (addFile grp) files root)
     = fold seeFirst (concat (map recordPaths files)) (map fst root)"
  by (induction files arbitrary: root) (simp_all add: addFile_keys)

lemma buildStore_keys: "map fst (buildStore files grp) = createdPaths files"
  by (simp add: buildStore_def createdPaths_def firstSeen_def fold_addFile_keys)

lemma fold_seeFirst_distinct:
  "distinct seen \<Longrightarrow> distinct (fold seeFirst ks seen)"
  by (induction ks arbitrary: seen) (simp_all add: seeFirst_def)

lemma fold_seeFirst_set:
  "set (fold seeFirst ks seen) = set seen \<union> set ks"
  by (induction ks arbitrary: seen) (auto simp: seeFirst_def)

lemma createdPaths_distinct: "distinct (createdPaths files)"
  by (simp add: createdPaths_def firstSeen_def fold_seeFirst_distinct)

lemma addParts_present:
  "set (runningPaths currentPath parts) \<subseteq> set (map fst root) \<Longrightarrow>
     addParts file grp n i parts currentPath root = root"
proof (induction parts arbitrary: i currentPath)
  case Nil
  then show ?case by simp
next
  case (Cons part parts)
  then show ?case
    unfolding addParts_visit by (auto simp: visit_def has_def)
qed

lemma parentOf_childPath:
  "CHR ''/'' \<notin> set part \<Longrightarrow> parentOf (childPath currentPath part) = currentPath"
proof (cases "currentPath = ''''")
  case True
  assume "CHR ''/'' \<notin> set part"
  then have none: "dropWhile (\<lambda>c. c \<noteq> CHR ''/'') (rev part) = []"
    by (auto simp: dropWhile_eq_Nil_conv)
  show ?thesis
    using True by (simp add: parentOf_def childPath_def none)
next
  case False
  assume "CHR ''/'' \<notin> set part"
  then have slash: "dropWhile (\<lambda>c. c \<noteq> CHR ''/'') (rev part @ CHR ''/'' # rev currentPath)
      = CHR ''/'' # rev currentPath"
    by (subst dropWhile_append2) auto
  show ?thesis
    using False by (simp add: parentOf_def childPath_def slash)
qed

lemma childPath_not_empty: "part \<noteq> '''' \<Longrightarrow> childPath currentPath part \<noteq> ''''"
  by (simp add: childPath_def)

lemma childPath_longer: "part \<noteq> '''' \<Longrightarrow> childPath currentPath part \<noteq> currentPath"
  by (auto simp: childPath_def)

lemma storeInv_parent_known:
  assumes "storeInv root" and "k \<in> set (map fst root)"
  shows "parentOf k = '''' \<or> parentOf k \<in> set (map fst root)"
proof -
  from assms(2) obtain pre post where split: "map fst root = pre @ k # post"
    by (auto dest: split_list)
  with assms(1) have "parentOf k = '''' \<or> parentOf k \<in> set pre"
    unfolding storeInv_def by blast
  then show ?thesis
    unfolding split by auto
qed

lemma storeInv_empty: "storeInv []"
  by (simp add: storeInv_def)

lemma parents_first_snoc:
  assumes old: "\<forall>pre k post. K = pre @ k # post \<longrightarrow> parentOf k = '''' \<or> parentOf k \<in> set pre"
    and new: "parentOf cp = '''' \<or> parentOf cp \<in> set K"
  shows "\<forall>pre k post. K @ [cp] = pre @ k # post \<longrightarrow> parentOf k = '''' \<or> parentOf k \<in> set pre"
proof (intro allI impI)
  fix pre k post
  assume eq: "K @ [cp] = pre @ k # post"
  show "parentOf k = '''' \<or> parentOf k \<in> set pre"
  proof (cases post rule: rev_cases)
    case Nil
    with eq have "K = pre" "k = cp" by simp_all
    with new show ?thesis by simp
  next
    case (snoc post' x)
    with eq have "K = pre @ k # post'" by simp
    with old show ?thesis by blast
  qed
qed

lemma visit_storeInv:
  assumes inv: "storeInv root"
    and cur: "currentPath = '''' \<or> currentPath \<in> set (map fst root)"
    and part: "part \<noteq> ''''" "CHR ''/'' \<notin> set part"
  shows "storeInv (visit file grp n i part currentPath root)"
proof (cases "has root (childPath currentPath part)")
  case True
  then show ?thesis
    using inv by (simp add: visit_def)
next
  case False
  define cp where "cp = childPath currentPath part"
  define K where "K = map fst root"
  define node where "node = newNode file grp n i part cp"
  define root' where "root' = visit file grp n i part currentPath root"
  have fresh: "cp \<notin> set K"
    using False by (simp add: has_def cp_def K_def)
  have cp_ne: "cp \<noteq> ''''"
    using part(1) by (simp add: cp_def childPath_not_empty)
  have parent: "parentOf cp = currentPath"
    using part(2) by (simp add: cp_def parentOf_childPath)
  have cur_ne: "currentPath \<noteq> cp"
    using cur fresh cp_ne by (auto simp: K_def)
  from inv have dist: "distinct K" and no_empty: "'''' \<notin> set K"
    and objs: "\<And>k obj. map_of root k = Some obj \<Longrightarrow>
           obj_path obj = k
           \<and> (obj_type obj = Directory \<longleftrightarrow> obj_children obj \<noteq> None)
           \<and> (\<forall>cs. obj_children obj = Some cs \<longrightarrow> cs = filter (\<lambda>k'. parentOf k' = k) K)"
    and first: "\<forall>pre k post. K = pre @ k # post \<longrightarrow> parentOf k = '''' \<or> parentOf k \<in> set pre"
    unfolding storeInv_def K_def by blast+
  have known: "parentOf k = '''' \<or> parentOf k \<in> set K" if "k \<in> set K" for k
    using storeInv_parent_known [OF inv] that by (simp add: K_def)
  have not_parent: "parentOf k \<noteq> cp" if "k \<in> set K" for k
    using known [OF that] fresh cp_ne by auto
  have filter_cp: "filter (\<lambda>k'. parentOf k' = cp) (K @ [cp]) = []"
    using not_parent parent cur_ne by (simp add: filter_empty_conv)
  have filter_other: "filter (\<lambda>k'. parentOf k' = k) (K @ [cp]) = filter (\<lambda>k'. parentOf k' = k) K"
    if "k \<noteq> currentPath" for k
    using that parent by simp
  have filter_cur: "filter (\<lambda>k'. parentOf k' = currentPath) (K @ [cp])
      = filter (\<lambda>k'. parentOf k' = currentPath) K @ [cp]"
    using parent by simp
  have keys': "map fst root' = K @ [cp]"
    unfolding root'_def visit_keys using fresh by (simp add: seeFirst_def cp_def K_def)
  have node_ok: "obj_path node = cp"
    "obj_type node = Directory \<longleftrightarrow> obj_children node \<noteq> None"
    "obj_children node = Some cs \<Longrightarrow> cs = []" for cs
    by (auto simp: node_def newNode_def split: if_splits)
  let ?root1 = "setEntry cp node root"
  have m1: "map_of ?root1 = (map_of root)(cp \<mapsto> node)"
    by (rule map_of_setEntry)
  have root'_link: "root' = linkToParent currentPath cp ?root1"
    using False by (simp add: root'_def visit_def cp_def node_def)
  have objs': "obj_path obj = k
           \<and> (obj_type obj = Directory \<longleftrightarrow> obj_children obj \<noteq> None)
           \<and> (\<forall>cs. obj_children obj = Some cs \<longrightarrow> cs = filter (\<lambda>k'. parentOf k' = k) (K @ [cp]))"
    if look: "map_of root' k = Some obj" for k obj
  proof (cases "currentPath \<noteq> '''' \<and> (\<exists>parent cs. map_of root currentPath = Some parent
                  \<and> obj_children parent = Some cs)")
    case True
    then obtain parent cs where p: "currentPath \<noteq> ''''" "map_of root currentPath = Some parent"
      "obj_children parent = Some cs"
      by blast
    have "map fst ?root1 = K @ [cp]"
      using fresh by (simp add: setEntry_new K_def)
    then have in1: "currentPath \<in> set (map fst ?root1)"
      using map_of_key [OF p(2)] by (simp add: K_def)
    have "root' = setEntry currentPath (parent\<lparr>obj_children := Some (cs @ [cp])\<rparr>) ?root1"
      using p cur_ne in1 by (simp add: root'_link linkToParent_def has_def m1)
    then have m': "map_of root' = ((map_of root)(cp \<mapsto> node))
        (currentPath \<mapsto> parent\<lparr>obj_children := Some (cs @ [cp])\<rparr>)"
      by (simp add: map_of_setEntry)
    from objs [OF p(2)] p(3) have pcs: "cs = filter (\<lambda>k'. parentOf k' = currentPath) K"
      and ppath: "obj_path parent = currentPath" and ptype: "obj_type parent = Directory"
      by auto
    consider (par) "k = currentPath" | (new) "k \<noteq> currentPath" "k = cp"
      | (old) "k \<noteq> currentPath" "k \<noteq> cp"
      by blast
    then show ?thesis
    proof cases
      case par
      with look m' have "obj = parent\<lparr>obj_children := Some (cs @ [cp])\<rparr>"
        by simp
      then show ?thesis
        using par pcs ppath ptype filter_cur by simp
    next
      case new
      with look m' have "obj = node" by simp
      then show ?thesis
        using new node_ok filter_cp by auto
    next
      case old
      with look m' have "map_of root k = Some obj" by simp
      from objs [OF this] show ?thesis
        using old filter_other by simp
    qed
  next
    case False
    have "root' = ?root1"
    proof (cases "currentPath \<noteq> '''' \<and> has ?root1 currentPath")
      case True
      then obtain parent where "map_of root currentPath = Some parent"
        using cur by (metis K_def map_of_eq_None_iff not_Some_eq set_map)
      with False True have "obj_children parent = None"
        by auto
      then show ?thesis
        using True \<open>map_of root currentPath = Some parent\<close> cur_ne
        by (simp add: root'_link linkToParent_def m1)
    next
      case False
      then show ?thesis
        by (auto simp: root'_link linkToParent_def)
    qed
    then have m': "map_of root' = (map_of root)(cp \<mapsto> node)"
      by (simp add: m1)
    show ?thesis
    proof (cases "k = cp")
      case True
      with look m' have "obj = node" by simp
      then show ?thesis
        using True node_ok filter_cp by auto
    next
      case ne: False
      with look m' have old: "map_of root k = Some obj" by simp
      show ?thesis
      proof (cases "k = currentPath")
        case True
        with old False cur_ne have "obj_children obj = None"
          using map_of_key [OF old] no_empty by (cases "obj_children obj") (auto simp: K_def)
        then show ?thesis
          using objs [OF old] by simp
      next
        case False
        from objs [OF old] show ?thesis
          using False filter_other by simp
      qed
    qed
  qed
  have first': "\<forall>pre k post. K @ [cp] = pre @ k # post \<longrightarrow> parentOf k = '''' \<or> parentOf k \<in> set pre"
    using first
  proof (rule parents_first_snoc)
    show "parentOf cp = '''' \<or> parentOf cp \<in> set K"
      using cur parent by (simp add: K_def)
  qed
  have "storeInv root'"
    unfolding storeInv_def keys'
    using dist fresh no_empty cp_ne objs' first' by auto
  then show ?thesis
    by (simp add: root'_def)
qed

lemma js_split_free: "list_all (\<lambda>p. c \<notin> set p) (js_split c s)"
proof (induction s)
  case Nil
  then show ?case by simp
next
  case (Cons x xs)
  then show ?case
    by (cases "js_split c xs") auto
qed

lemma pathParts_clean:
  "list_all (\<lambda>part. part \<noteq> '''' \<and> CHR ''/'' \<notin> set part) (pathParts p)"
  using js_split_free [of "CHR ''/''" p]
  by (auto simp: pathParts_def list_all_iff)

lemma visit_has:
  "childPath currentPath part \<in> set (map fst (visit file grp n i part currentPath root))"
  by (simp add: visit_keys seeFirst_def)

lemma addParts_storeInv:
  assumes "storeInv root"
    and "currentPath = '''' \<or> currentPath \<in> set (map fst root)"
    and "list_all (\<lambda>part. part \<noteq> '''' \<and> CHR ''/'' \<notin> set part) parts"
  shows "storeInv (addParts file grp n i parts currentPath root)"
  using assms
proof (induction parts arbitrary: i currentPath root)
  case Nil
  then show ?case by simp
next
  case (Cons part parts)
  from Cons.prems(3) have part: "part \<noteq> ''''" "CHR ''/'' \<notin> set part"
    and rest: "list_all (\<lambda>part. part \<noteq> '''' \<and> CHR ''/'' \<notin> set part) parts"
    by simp_all
  have "storeInv (visit file grp n i part currentPath root)"
    using Cons.prems(1,2) part by (rule visit_storeInv)
  then have "storeInv (addParts file grp n (i + 1) parts (childPath currentPath part)
      (visit file grp n i part currentPath root))"
    using visit_has rest by (intro Cons.IH) simp_all
  then show ?case
    unfolding addParts_visit using part by simp
qed

lemma addFile_storeInv: "storeInv root \<Longrightarrow> storeInv (addFile grp file root)"
  unfolding addFile_def Let_def
  by (rule addParts_storeInv) (simp_all add: pathParts_clean)

lemma fold_addFile_storeInv:
  "storeInv root \<Longrightarrow> storeInv (fold (addFile grp) files root)"
  by (induction files arbitrary: root) (simp_all add: addFile_storeInv)

lemma buildStore_storeInv: "storeInv (buildStore files grp)"
  unfolding buildStore_def by (rule fold_addFile_storeInv) (rule storeInv_empty)

lemma runningPaths_known:
  assumes closed: "\<And>k. k \<in> K \<Longrightarrow> parentOf k = '''' \<or> parentOf k \<in> K"
    and "list_all (\<lambda>part. part \<noteq> '''' \<and> CHR ''/'' \<notin> set part) parts"
    and "runningPaths currentPath parts \<noteq> []"
    and "last (runningPaths currentPath parts) \<in> K"
  shows "set (runningPaths currentPath parts) \<subseteq> K"
  using assms(2-)
proof (induction parts arbitrary: currentPath)
  case Nil
  then show ?case by simp
next
  case (Cons part parts)
  from Cons.prems(1) have part: "part \<noteq> ''''" "CHR ''/'' \<notin> set part"
    and rest: "list_all (\<lambda>part. part \<noteq> '''' \<and> CHR ''/'' \<notin> set part) parts"
    by simp_all
  define cp where "cp = childPath currentPath part"
  have run: "runningPaths currentPath (part # parts) = cp # runningPaths cp parts"
    using part by (simp add: cp_def)
  have cp_ne: "cp \<noteq> ''''"
    using part by (simp add: cp_def childPath_not_empty)
  show ?case
  proof (cases parts)
    case Nil
    then show ?thesis
      using Cons.prems(3) run by simp
  next
    case (Cons part' parts')
    with rest have part': "part' \<noteq> ''''" "CHR ''/'' \<notin> set part'"
      by simp_all
    have run': "runningPaths cp parts = childPath cp part' # runningPaths (childPath cp part') parts'"
      using Cons part' by simp
    then have ne: "runningPaths cp parts \<noteq> []"
      by simp
    have "last (runningPaths cp parts) \<in> K"
      using Cons.prems(3) run ne by simp
    with rest ne have sub: "set (runningPaths cp parts) \<subseteq> K"
      by (intro Cons.IH)
    then have "childPath cp part' \<in> K"
      using run' by simp
    from closed [OF this] have "cp \<in> K"
      using part' cp_ne by (simp add: parentOf_childPath)
    then show ?thesis
      using sub run by simp
  qed
qed

lemma addFile_known:
  assumes "storeInv root" and "recordPaths file \<noteq> []"
    and "last (recordPaths file) \<in> set (map fst root)"
  shows "addFile grp file root = root"
proof -
  have "set (runningPaths '''' (pathParts (path file))) \<subseteq> set (map fst root)"
  proof (rule runningPaths_known)
    show "parentOf k = '''' \<or> parentOf k \<in> set (map fst root)" if "k \<in> set (map fst root)" for k
      using assms(1) that by (rule storeInv_parent_known)
  qed (use assms(2,3) in \<open>simp_all add: pathParts_clean recordPaths_def\<close>)
  then show ?thesis
    by (simp add: addFile_def Let_def addParts_present)
qed

lemma buildStore_snoc:
  "buildStore (files @ [file]) grp = addFile grp file (buildStore files grp)"
  by (simp add: buildStore_def)

lemma buildStore_paths:
  "map (\<lambda>entry. obj_path (snd entry)) (buildStore files grp) = map fst (buildStore files grp)"
proof -
  have "obj_path obj = k" if "(k, obj) \<in> set (buildStore files grp)" for k obj
    using buildStore_storeInv [of files grp] that
    unfolding storeInv_def by (metis map_of_is_SomeI)
  then show ?thesis
    by (intro map_cong) auto
qed

lemma scenario_store_keys:
  "map fst (buildStore [fileA] Unstaged) = [''src'', ''src/a.ts'']"
  by (simp add: buildStore_keys createdPaths_def firstSeen_def seeFirst_def recordPaths_def
      pathParts_def childPath_def fileA_def)

lemma scenario_tree: "buildFileTree [fileA, fileB] Unstaged = [nodeSrc]"
  by (simp add: buildFileTree_def buildStore_def addFile_def pathParts_def fileA_def fileB_def
      nodeSrc_def nodeFA_def nodeFB_def has_def linkToParent_def includesChar_def
      List.map_filter_def Let_def)

text \<open>
  C9. \<^verbatim>\<open>buildFileTree\<close> creates at most one node per path: the keys of \<^verbatim>\<open>root\<close> are
  distinct and every node's path is its key. A record adds, in order, exactly those of
  its running paths (its prefixes and its full path) that \<^verbatim>\<open>root\<close> does not hold yet. A
  record whose full path is already the path of a node, whether of a file or of a
  directory, changes nothing: the store and the tree are the same as without the record.
\<close>

theorem buildFileTree_one_node_per_path:
  "distinct (map fst (buildStore files grp))
   \<and> map (\<lambda>entry. obj_path (snd entry)) (buildStore files grp) = map fst (buildStore files grp)
   \<and> map fst (buildStore (files @ [file]) grp)
       = fold seeFirst (recordPaths file) (map fst (buildStore files grp))
   \<and> (recordPaths file \<noteq> [] \<and> last (recordPaths file) \<in> set (map fst (buildStore files grp))
        \<longrightarrow> buildStore (files @ [file]) grp = buildStore files grp
          \<and> buildFileTree (files @ [file]) grp = buildFileTree files grp)"
proof -
  have one: "distinct (map fst (buildStore files grp))"
    by (simp add: buildStore_keys createdPaths_distinct)
  have added: "map fst (buildStore (files @ [file]) grp)
       = fold seeFirst (recordPaths file) (map fst (buildStore files grp))"
    by (simp add: buildStore_snoc addFile_keys)
  have dropped: "buildStore (files @ [file]) grp = buildStore files grp"
    if "recordPaths file \<noteq> []" "last (recordPaths file) \<in> set (map fst (buildStore files grp))"
    unfolding buildStore_snoc using buildStore_storeInv that by (rule addFile_known)
  then have "buildFileTree (files @ [file]) grp = buildFileTree files grp"
    if "recordPaths file \<noteq> []" "last (recordPaths file) \<in> set (map fst (buildStore files grp))"
    using that by (simp add: buildFileTree_def)
  with one added dropped buildStore_paths [of files grp] show ?thesis
    by blast
qed

theorem buildFileTree_one_node_per_path_witness:
  "buildFileTree ([fileA] @ [fileSrc]) Unstaged = buildFileTree [fileA] Unstaged
   \<and> map fst (buildStore ([fileA] @ [fileSrc]) Unstaged) = [''src'', ''src/a.ts'']"
proof -
  have paths: "recordPaths fileSrc = [''src'']"
    by (simp add: recordPaths_def pathParts_def childPath_def fileSrc_def)
  have hyp: "recordPaths fileSrc \<noteq> []
      \<and> last (recordPaths fileSrc) \<in> set (map fst (buildStore [fileA] Unstaged))"
    by (simp add: paths scenario_store_keys)
  from buildFileTree_one_node_per_path [of "[fileA]" Unstaged fileSrc] hyp
  have "buildStore ([fileA] @ [fileSrc]) Unstaged = buildStore [fileA] Unstaged"
    and "buildFileTree ([fileA] @ [fileSrc]) Unstaged = buildFileTree [fileA] Unstaged"
    by blast+
  then show ?thesis
    by (simp only: scenario_store_keys)
qed

section \<open>Building the tree: reading the store\<close>

lemma readStore_keys: "map fst (readStore root) = map fst root"
  by (induction root rule: readStore.induct) (simp_all add: Let_def)

lemma map_filter_found:
  assumes "\<And>c. c \<in> set cs \<Longrightarrow> \<exists>t. m c = Some t \<and> f t = c"
  shows "map f (List.map_filter m cs) = cs"
  using assms
proof (induction cs)
  case Nil
  then show ?case by (simp add: List.map_filter_simps)
next
  case (Cons c cs)
  from Cons.prems [of c] obtain t where "m c = Some t" "f t = c"
    by auto
  moreover have "map f (List.map_filter m cs) = cs"
    using Cons.prems by (intro Cons.IH) simp
  ultimately show ?case
    by (simp add: List.map_filter_simps)
qed

lemma map_filter_source:
  "t \<in> set (List.map_filter m cs) \<Longrightarrow> \<exists>c. m c = Some t"
  by (auto simp: List.map_filter_def)

lemma storeInv_references_later:
  assumes inv: "storeInv (pre @ (k, obj) # post)" and arr: "obj_children obj = Some cs"
  shows "cs = filter (\<lambda>k'. parentOf k' = k) (map fst (pre @ (k, obj) # post))"
    and "cs = filter (\<lambda>k'. parentOf k' = k) (map fst post)"
proof -
  let ?root = "pre @ (k, obj) # post"
  from inv have dist: "distinct (map fst ?root)" and no_empty: "'''' \<notin> set (map fst ?root)"
    and first: "\<And>p1 k' p2. map fst ?root = p1 @ k' # p2 \<Longrightarrow> parentOf k' = '''' \<or> parentOf k' \<in> set p1"
    unfolding storeInv_def by blast+
  from dist have "map_of ?root k = Some obj"
    by (intro map_of_is_SomeI) simp_all
  with inv arr show all: "cs = filter (\<lambda>k'. parentOf k' = k) (map fst ?root)"
    unfolding storeInv_def by blast
  have k_new: "k \<notin> set (map fst pre)" and k_ne: "k \<noteq> ''''"
    using dist no_empty by auto
  have own: "parentOf k \<noteq> k"
    using first [of "map fst pre" k "map fst post"] k_new k_ne by force
  have earlier: "parentOf k' \<noteq> k" if "k' \<in> set (map fst pre)" for k'
  proof -
    from that obtain p1 p2 where split: "map fst pre = p1 @ k' # p2"
      by (auto dest: split_list)
    then have "map fst ?root = p1 @ k' # (p2 @ k # map fst post)"
      by simp
    from first [OF this] have "parentOf k' = '''' \<or> parentOf k' \<in> set (map fst pre)"
      unfolding split by auto
    then show ?thesis
      using k_new k_ne by auto
  qed
  then have "filter (\<lambda>k'. parentOf k' = k) (map fst pre) = []"
    by (simp add: filter_empty_conv)
  then show "cs = filter (\<lambda>k'. parentOf k' = k) (map fst post)"
    using all own by simp
qed

lemma readStore_nodes:
  assumes "storeInv (pre @ suf)" and "(k, t) \<in> set (readStore suf)"
  shows "node_path t = k
    \<and> (\<forall>ts. node_children t = Some ts \<longrightarrow>
          map node_path ts = filter (\<lambda>k'. parentOf k' = k) (map fst (pre @ suf))
          \<and> set ts \<subseteq> snd ` set (readStore suf))"
  using assms
proof (induction suf arbitrary: pre k t)
  case Nil
  then show ?case by simp
next
  case (Cons entry post)
  obtain k0 obj where entry: "entry = (k0, obj)"
    by (cases entry)
  have inv: "storeInv (pre @ (k0, obj) # post)"
    using Cons.prems(1) entry by simp
  then have inv': "storeInv ((pre @ [(k0, obj)]) @ post)"
    by simp
  have later: "node_path t' = k'
      \<and> (\<forall>ts. node_children t' = Some ts \<longrightarrow>
            map node_path ts = filter (\<lambda>k''. parentOf k'' = k') (map fst (pre @ (k0, obj) # post))
            \<and> set ts \<subseteq> snd ` set (readStore post))"
    if "(k', t') \<in> set (readStore post)" for k' t'
    using Cons.IH [OF inv' that] by simp
  define top where "top = TreeNode (obj_name obj) (obj_path obj) (obj_type obj)
      (map_option (List.map_filter (map_of (readStore post))) (obj_children obj))
      (obj_file obj) (obj_group obj) (obj_depth obj)"
  have read: "readStore (entry # post) = (k0, top) # readStore post"
    by (simp add: entry top_def Let_def)
  have sub: "snd ` set (readStore post) \<subseteq> snd ` set (readStore ((k0, obj) # post))"
    by (auto simp: Let_def)
  from Cons.prems(2) consider (top) "k = k0" "t = top" | (tail) "(k, t) \<in> set (readStore post)"
    unfolding read by auto
  then show ?case
  proof cases
    case tail
    from later [OF this] sub show ?thesis
      unfolding entry by blast
  next
    case top
    from inv have "distinct (map fst (pre @ (k0, obj) # post))"
      unfolding storeInv_def by blast
    then have "map_of (pre @ (k0, obj) # post) k0 = Some obj"
      by (intro map_of_is_SomeI) simp_all
    with inv have pth: "obj_path obj = k0"
      unfolding storeInv_def by blast
    have kids: "map node_path ts = filter (\<lambda>k'. parentOf k' = k0) (map fst (pre @ (k0, obj) # post))
        \<and> set ts \<subseteq> snd ` set (readStore post)"
      if "node_children top = Some ts" for ts
    proof -
      from that obtain cs where cs: "obj_children obj = Some cs"
        and ts: "ts = List.map_filter (map_of (readStore post)) cs"
        by (auto simp: top_def)
      note refs = storeInv_references_later [OF inv cs]
      have found: "\<exists>t'. map_of (readStore post) c = Some t' \<and> node_path t' = c"
        if "c \<in> set cs" for c
      proof -
        from that refs(2) have "c \<in> set (map fst (readStore post))"
          by (simp add: readStore_keys)
        then obtain t' where t': "map_of (readStore post) c = Some t'"
          by (metis map_of_eq_None_iff not_Some_eq set_map)
        then have "(c, t') \<in> set (readStore post)"
          by (rule map_of_SomeD)
        from later [OF this] t' show ?thesis
          by blast
      qed
      have "map node_path ts = cs"
        unfolding ts using found by (rule map_filter_found)
      moreover have "set ts \<subseteq> snd ` set (readStore post)"
      proof
        fix t' assume "t' \<in> set ts"
        then obtain c where "map_of (readStore post) c = Some t'"
          unfolding ts by (auto dest: map_filter_source)
        then have "(c, t') \<in> set (readStore post)"
          by (rule map_of_SomeD)
        then show "t' \<in> snd ` set (readStore post)"
          by force
      qed
      ultimately show ?thesis
        using refs(1) by simp
    qed
    have "node_path top = k0"
      by (simp add: top_def pth)
    with kids sub show ?thesis
      unfolding entry top by blast
  qed
qed

lemma walk_closed:
  assumes closed: "\<And>t ts. t \<in> V \<Longrightarrow> node_children t = Some ts \<Longrightarrow> set ts \<subseteq> V"
  shows "set nodes \<subseteq> V \<Longrightarrow> list_all (\<lambda>entry. snd entry \<in> V) (walk anc nodes)"
proof (induction anc nodes rule: walk.induct)
  case (1 anc)
  then show ?case by simp
next
  case (2 anc name pth ty children fl grp depth nodes)
  from "2.prems" have here: "TreeNode name pth ty children fl grp depth \<in> V"
    and rest: "set nodes \<subseteq> V"
    by simp_all
  have sub: "list_all (\<lambda>entry. snd entry \<in> V) (walk (anc @ [pth]) cs)"
    if "ty = Directory" "children = Some cs" for cs
  proof -
    have "set cs \<subseteq> V"
      using closed [OF here] that by simp
    then show ?thesis
      using "2.IH"(1) that by simp
  qed
  have tail: "list_all (\<lambda>entry. snd entry \<in> V) (walk anc nodes)"
    using "2.IH"(2) rest by simp
  show ?case
  proof (cases "ty = Directory")
    case True
    then show ?thesis
      using here sub tail by (cases children) simp_all
  next
    case False
    then show ?thesis
      using here tail by simp
  qed
qed

lemma buildFileTree_nodes:
  assumes "entry \<in> set (walk [] (buildFileTree files grp))"
  shows "\<exists>k. (k, snd entry) \<in> set (readStore (buildStore files grp))"
proof -
  let ?R = "readStore (buildStore files grp)"
  have inv: "storeInv ([] @ buildStore files grp)"
    by (simp add: buildStore_storeInv)
  have "list_all (\<lambda>entry. snd entry \<in> snd ` set ?R) (walk [] (buildFileTree files grp))"
  proof (rule walk_closed)
    fix t ts
    assume "t \<in> snd ` set ?R" and kids: "node_children t = Some ts"
    then obtain k where "(k, t) \<in> set ?R"
      by force
    from readStore_nodes [OF inv this] kids show "set ts \<subseteq> snd ` set ?R"
      by blast
  next
    show "set (buildFileTree files grp) \<subseteq> snd ` set ?R"
      by (auto simp: buildFileTree_def)
  qed
  with assms have "snd entry \<in> snd ` set ?R"
    by (simp add: list_all_iff)
  then show ?thesis
    by force
qed

lemma buildFileTree_top_paths:
  "map node_path (buildFileTree files grp)
     = filter (\<lambda>k. \<not> includesChar k (CHR ''/'')) (createdPaths files)"
proof -
  let ?R = "readStore (buildStore files grp)"
  have inv: "storeInv ([] @ buildStore files grp)"
    by (simp add: buildStore_storeInv)
  have "node_path (snd e) = fst e" if "e \<in> set ?R" for e
    using readStore_nodes [OF inv, of "fst e" "snd e"] that by simp
  then have "map (node_path \<circ> snd) ?R = map fst ?R"
    by (intro map_cong) simp_all
  then have paths: "map node_path (map snd ?R) = createdPaths files"
    by (simp add: readStore_keys buildStore_keys)
  have "map node_path (buildFileTree files grp)
      = filter (\<lambda>k. \<not> includesChar k (CHR ''/'')) (map node_path (map snd ?R))"
    unfolding buildFileTree_def filter_map by (simp add: comp_def)
  then show ?thesis
    by (simp only: paths)
qed

lemma reversed_tree: "buildFileTree [fileB, fileA] Unstaged = [nodeSrcBA]"
  by (simp add: buildFileTree_def buildStore_def addFile_def pathParts_def fileA_def fileB_def
      nodeSrcBA_def nodeFA_def nodeFB_def has_def linkToParent_def includesChar_def
      List.map_filter_def Let_def)

lemma reversed_walk:
  "walk [] [nodeSrcBA] = [([], nodeSrcBA), ([''src''], nodeFB), ([''src''], nodeFA)]"
  by (simp add: nodeSrcBA_def nodeFA_def nodeFB_def)

lemma reversed_paths:
  "createdPaths [fileB, fileA] = [''src'', ''src/b.ts'', ''src/a.ts'']"
  by (simp add: createdPaths_def firstSeen_def seeFirst_def recordPaths_def pathParts_def
      childPath_def fileA_def fileB_def)

text \<open>
  C6. \<^verbatim>\<open>buildFileTree\<close> has no failing branch and is a total function; an empty list of
  records gives an empty result. The paths of the nodes it creates are the running paths
  of the records in the order in which they are first seen, and the result consists of
  the created nodes whose path contains no \<^verbatim>\<open>/\<close>, in that order. For every node of the
  returned tree that has a \<^verbatim>\<open>children\<close> array, the children are, in first-seen order,
  the created nodes whose parent path is the node's path.
\<close>

theorem buildFileTree_guarantees:
  "buildFileTree [] grp = []
   \<and> map (\<lambda>entry. node_path (snd entry)) (readStore (buildStore files grp)) = createdPaths files
   \<and> buildFileTree files grp
       = filter (\<lambda>node. \<not> includesChar (node_path node) (CHR ''/''))
           (map snd (readStore (buildStore files grp)))
   \<and> map node_path (buildFileTree files grp)
       = filter (\<lambda>k. \<not> includesChar k (CHR ''/'')) (createdPaths files)
   \<and> (\<forall>entry \<in> set (walk [] (buildFileTree files grp)). \<forall>ts.
         node_children (snd entry) = Some ts \<longrightarrow>
           map node_path ts
             = filter (\<lambda>k. parentOf k = node_path (snd entry)) (createdPaths files))"
proof -
  let ?R = "readStore (buildStore files grp)"
  have inv: "storeInv ([] @ buildStore files grp)"
    by (simp add: buildStore_storeInv)
  have empty: "buildFileTree [] grp = []"
    by (simp add: buildFileTree_def buildStore_def)
  have "node_path (snd e) = fst e" if "e \<in> set ?R" for e
    using readStore_nodes [OF inv, of "fst e" "snd e"] that by simp
  then have "map (\<lambda>entry. node_path (snd entry)) ?R = map fst ?R"
    by (intro map_cong) simp_all
  then have created: "map (\<lambda>entry. node_path (snd entry)) ?R = createdPaths files"
    by (simp add: readStore_keys buildStore_keys)
  have kids: "map node_path ts
      = filter (\<lambda>k. parentOf k = node_path (snd entry)) (createdPaths files)"
    if "entry \<in> set (walk [] (buildFileTree files grp))" "node_children (snd entry) = Some ts"
    for entry ts
  proof -
    from buildFileTree_nodes [OF that(1)] obtain k where "(k, snd entry) \<in> set ?R"
      by blast
    from readStore_nodes [OF inv this] that(2) show ?thesis
      by (simp add: buildStore_keys)
  qed
  show ?thesis
    using empty created buildFileTree_top_paths [of files grp] kids
    by (auto simp: buildFileTree_def)
qed

theorem buildFileTree_guarantees_witness:
  "buildFileTree [fileB, fileA] Unstaged = [nodeSrcBA]
   \<and> node_children nodeSrcBA = Some [nodeFB, nodeFA]
   \<and> map node_path [nodeFB, nodeFA]
       = filter (\<lambda>k. parentOf k = node_path nodeSrcBA) (createdPaths [fileB, fileA])
   \<and> createdPaths [fileB, fileA] = [''src'', ''src/b.ts'', ''src/a.ts'']"
proof -
  have top: "([] :: string list, nodeSrcBA) \<in> set (walk [] (buildFileTree [fileB, fileA] Unstaged))"
    by (simp add: reversed_tree reversed_walk)
  have kids: "node_children (snd ([] :: string list, nodeSrcBA)) = Some [nodeFB, nodeFA]"
    by (simp add: nodeSrcBA_def)
  note all_nodes = buildFileTree_guarantees [of Unstaged "[fileB, fileA]",
      THEN conjunct2, THEN conjunct2, THEN conjunct2, THEN conjunct2]
  from all_nodes top have "\<forall>ts. node_children (snd ([] :: string list, nodeSrcBA)) = Some ts \<longrightarrow>
      map node_path ts
        = filter (\<lambda>k. parentOf k = node_path (snd ([] :: string list, nodeSrcBA))) (createdPaths [fileB, fileA])"
    by (rule bspec)
  with kids have "map node_path [nodeFB, nodeFA]
       = filter (\<lambda>k. parentOf k = node_path (snd ([] :: string list, nodeSrcBA))) (createdPaths [fileB, fileA])"
    by (elim allE impE) assumption
  then show ?thesis
    using kids by (simp add: reversed_tree reversed_paths)
qed

section \<open>The rows of the unified list\<close>

text \<open>
  C5. In flat mode the rows are the header \<^verbatim>\<open>Changes\<close> with the number of unstaged
  records and one file row per unstaged record in order, then the header
  \<^verbatim>\<open>Staged Changes\<close> with the number of staged records and one file row per staged
  record in order. In tree mode each header is followed by one row per node of the
  flattened tree built from that group's records, a file row for a file node and a
  directory row otherwise. In both modes a group whose list is empty contributes no
  header and no rows. The scenario (two unstaged records under \<^verbatim>\<open>src\<close>, tree mode,
  nothing collapsed) gives the header, the directory \<^verbatim>\<open>src\<close> and the two files.
\<close>

theorem allItems_row_construction:
  "(viewMode s = Flat \<longrightarrow>
      allItems s =
        (if unstagedFiles s = [] then []
         else GroupItem ''Changes'' (length (unstagedFiles s))
              # map (\<lambda>file. FileItem (Some file) (Some Unstaged) None) (unstagedFiles s))
        @ (if stagedFiles s = [] then []
           else GroupItem ''Staged Changes'' (length (stagedFiles s))
                # map (\<lambda>file. FileItem (Some file) (Some Staged) None) (stagedFiles s)))
   \<and> (viewMode s = Tree \<longrightarrow>
      allItems s =
        (if unstagedFiles s = [] then []
         else GroupItem ''Changes'' (length (unstagedFiles s))
              # map treeItem
                  (flattenTree (buildFileTree (unstagedFiles s) Unstaged) (collapsedDirs s)))
        @ (if stagedFiles s = [] then []
           else GroupItem ''Staged Changes'' (length (stagedFiles s))
                # map treeItem
                    (flattenTree (buildFileTree (stagedFiles s) Staged) (collapsedDirs s))))
   \<and> treeItem node =
        (if node_type node = FileNode
         then FileItem (node_file node) (node_group node) (Some node)
         else DirectoryItem node)
   \<and> allItems (scenarioState\<lparr>viewMode := Tree\<rparr>) =
        [GroupItem ''Changes'' 2, DirectoryItem nodeSrc,
         FileItem (Some fileA) (Some Unstaged) (Some nodeFA),
         FileItem (Some fileB) (Some Unstaged) (Some nodeFB)]"
proof -
  have flat: "flattenTree [nodeSrc] {} = [nodeSrc, nodeFA, nodeFB]"
    by (simp add: flattenTree_def nodeSrc_def nodeFA_def nodeFB_def)
  have rows: "treeItem nodeSrc = DirectoryItem nodeSrc"
    "treeItem nodeFA = FileItem (Some fileA) (Some Unstaged) (Some nodeFA)"
    "treeItem nodeFB = FileItem (Some fileB) (Some Unstaged) (Some nodeFB)"
    by (simp_all add: treeItem_def nodeSrc_def nodeFA_def nodeFB_def)
  have scenario: "allItems (scenarioState\<lparr>viewMode := Tree\<rparr>) =
        [GroupItem ''Changes'' 2, DirectoryItem nodeSrc,
         FileItem (Some fileA) (Some Unstaged) (Some nodeFA),
         FileItem (Some fileB) (Some Unstaged) (Some nodeFB)]"
    by (simp add: allItems_rows scenarioState_def initialState_def scenario_tree flat rows)
  show ?thesis
    unfolding scenario by (simp add: allItems_rows treeItem_def)
qed

theorem allItems_row_construction_witness:
  "allItems scenarioState =
     [GroupItem ''Changes'' 2, FileItem (Some fileA) (Some Unstaged) None,
      FileItem (Some fileB) (Some Unstaged) None]
   \<and> allItems (scenarioState\<lparr>viewMode := Tree, collapsedDirs := {''src''}\<rparr>) =
     [GroupItem ''Changes'' 2, DirectoryItem nodeSrc]"
proof -
  have flat_mode: "viewMode scenarioState = Flat"
    by (simp add: scenarioState_def initialState_def)
  have tree_mode: "viewMode (scenarioState\<lparr>viewMode := Tree, collapsedDirs := {''src''}\<rparr>) = Tree"
    by simp
  have collapsed: "flattenTree [nodeSrc] {''src''} = [nodeSrc]"
    by (simp add: flattenTree_def nodeSrc_def)
  have dir_row: "treeItem nodeSrc = DirectoryItem nodeSrc"
    by (simp add: treeItem_def nodeSrc_def)
  from allItems_row_construction [of scenarioState] flat_mode
  have one: "allItems scenarioState =
        (if unstagedFiles scenarioState = [] then []
         else GroupItem ''Changes'' (length (unstagedFiles scenarioState))
              # map (\<lambda>file. FileItem (Some file) (Some Unstaged) None) (unstagedFiles scenarioState))
        @ (if stagedFiles scenarioState = [] then []
           else GroupItem ''Staged Changes'' (length (stagedFiles scenarioState))
                # map (\<lambda>file. FileItem (Some file) (Some Staged) None) (stagedFiles scenarioState))"
    by blast
  from allItems_row_construction
    [of "scenarioState\<lparr>viewMode := Tree, collapsedDirs := {''src''}\<rparr>"] tree_mode
  have two: "allItems (scenarioState\<lparr>viewMode := Tree, collapsedDirs := {''src''}\<rparr>) =
        (if unstagedFiles (scenarioState\<lparr>viewMode := Tree, collapsedDirs := {''src''}\<rparr>) = [] then []
         else GroupItem ''Changes''
                (length (unstagedFiles (scenarioState\<lparr>viewMode := Tree, collapsedDirs := {''src''}\<rparr>)))
              # map treeItem
                  (flattenTree
                     (buildFileTree
                        (unstagedFiles (scenarioState\<lparr>viewMode := Tree, collapsedDirs := {''src''}\<rparr>))
                        Unstaged)
                     (collapsedDirs (scenarioState\<lparr>viewMode := Tree, collapsedDirs := {''src''}\<rparr>))))
        @ (if stagedFiles (scenarioState\<lparr>viewMode := Tree, collapsedDirs := {''src''}\<rparr>) = [] then []
           else GroupItem ''Staged Changes''
                  (length (stagedFiles (scenarioState\<lparr>viewMode := Tree, collapsedDirs := {''src''}\<rparr>)))
                # map treeItem
                    (flattenTree
                       (buildFileTree
                          (stagedFiles (scenarioState\<lparr>viewMode := Tree, collapsedDirs := {''src''}\<rparr>))
                          Staged)
                       (collapsedDirs (scenarioState\<lparr>viewMode := Tree, collapsedDirs := {''src''}\<rparr>))))"
    by blast
  have first: "allItems scenarioState =
     [GroupItem ''Changes'' 2, FileItem (Some fileA) (Some Unstaged) None,
      FileItem (Some fileB) (Some Unstaged) None]"
    unfolding one by (simp add: scenarioState_def initialState_def)
  have second: "allItems (scenarioState\<lparr>viewMode := Tree, collapsedDirs := {''src''}\<rparr>) =
     [GroupItem ''Changes'' 2, DirectoryItem nodeSrc]"
    unfolding two
    by (simp add: scenarioState_def initialState_def scenario_tree collapsed dir_row)
  show ?thesis
    using first second by (rule conjI)
qed

end
